theory Spec2Isabelle
  imports Main "HOL-Library.Word"
begin

unbundle bit_operations_syntax

section \<open>Bytes, identifiers, errors\<close>

type_synonym byte = "8 word"

text \<open>
  \<^verbatim>\<open>uuid.UUID\<close> is the array type \<^verbatim>\<open>[16]byte\<close>: exactly sixteen bytes.
\<close>

typedef uuid = "{bs :: byte list. length bs = 16}"
  by (rule exI [of _ "replicate 16 0"]) simp

text \<open>\<^verbatim>\<open>uuid.Nil\<close>: the all-zero identifier.\<close>

definition uuid_Nil :: uuid where
  "uuid_Nil = Abs_uuid (replicate 16 0)"

text \<open>
  Every way a call of the protocol package can end without a result. The Go code builds
  its errors with \<^verbatim>\<open>errors.New\<close> and \<^verbatim>\<open>fmt.Errorf\<close>; one constructor
  stands for each message. \<open>Panic\<close> is a run-time panic of the Go program (index or slice
  bounds out of range, \<^verbatim>\<open>makeslice: len out of range\<close>): it is not a returned
  error value, the goroutine crashes.
\<close>

datatype error =
    EncodeError        \<comment> \<open>\<^verbatim>\<open>protohub: header is nil\<close>\<close>
  | DecodeError        \<comment> \<open>\<^verbatim>\<open>protohub: invalid header size\<close>, \<^verbatim>\<open>protohub: header size mismatch\<close>\<close>
  | HeaderNil          \<comment> \<open>\<^verbatim>\<open>header cannot be nil\<close>\<close>
  | ReadError          \<comment> \<open>\<^verbatim>\<open>failed to read ...\<close>: the stream ended before the requested bytes\<close>
  | ChecksumMismatch   \<comment> \<open>\<^verbatim>\<open>checksum mismatch\<close>\<close>
  | MessageTooLarge    \<comment> \<open>\<^verbatim>\<open>message size %d exceeds maximum %d\<close>\<close>
  | WriteError         \<comment> \<open>the underlying connection refused the write\<close>
  | Panic

definition and_then :: "error + 'a \<Rightarrow> ('a \<Rightarrow> error + 'b) \<Rightarrow> error + 'b" where
  "and_then m f = (case m of Inl e \<Rightarrow> Inl e | Inr x \<Rightarrow> f x)"

section \<open>Go slices and \<^verbatim>\<open>encoding/binary\<close>\<close>

text \<open>
  A byte slice that is read: its elements \<open>[0, len)\<close>, and the elements of its backing
  array between \<open>len\<close> and \<open>cap\<close>. An index expression \<^verbatim>\<open>s[i]\<close> panics unless
  \<open>i < len\<close>; a slice expression \<^verbatim>\<open>s[lo:hi]\<close> panics unless \<open>lo \<le> hi \<le> cap\<close>,
  so it may reach past \<open>len\<close> when the capacity allows it.
\<close>

datatype slice = Slice (elems: "byte list") (beyond: "byte list")

definition len :: "slice \<Rightarrow> nat" where
  "len s = length (elems s)"

definition cap :: "slice \<Rightarrow> nat" where
  "cap s = length (elems s) + length (beyond s)"

definition index :: "slice \<Rightarrow> nat \<Rightarrow> error + byte" where
  "index s i = (if i < len s then Inr (elems s ! i) else Inl Panic)"

definition reslice :: "slice \<Rightarrow> nat \<Rightarrow> nat \<Rightarrow> error + byte list" where
  "reslice s lo hi =
     (if lo \<le> hi \<and> hi \<le> cap s then Inr (take (hi - lo) (drop lo (elems s @ beyond s)))
      else Inl Panic)"

text \<open>\<^verbatim>\<open>make([]byte, n)\<close>: \<open>n\<close> zero bytes, capacity \<open>n\<close>.\<close>

definition make_bytes :: "nat \<Rightarrow> byte list" where
  "make_bytes n = replicate n 0"

text \<open>
  Writes into a buffer whose capacity is its length (the result of \<^verbatim>\<open>make\<close>).
  \<open>copy_at buf off src\<close> is \<^verbatim>\<open>copy(buf[off:], src)\<close>: it copies
  \<open>min (len buf - off) (len src)\<close> bytes; \<open>store buf i b\<close> is \<^verbatim>\<open>buf[i] = b\<close>.
\<close>

definition copy_at :: "byte list \<Rightarrow> nat \<Rightarrow> byte list \<Rightarrow> error + byte list" where
  "copy_at buf off src =
     (if off \<le> length buf
      then (let n = min (length buf - off) (length src)
            in Inr (take off buf @ take n src @ drop (off + n) buf))
      else Inl Panic)"

definition store :: "byte list \<Rightarrow> nat \<Rightarrow> byte \<Rightarrow> error + byte list" where
  "store buf i b = (if i < length buf then Inr (buf[i := b]) else Inl Panic)"

text \<open>
  \<^verbatim>\<open>binary.BigEndian\<close>, as the standard library writes it:
  \<^verbatim>\<open>b[0] = byte(v >> 56); ...; b[7] = byte(v)\<close> and
  \<^verbatim>\<open>uint64(b[7]) | uint64(b[6])<<8 | ... | uint64(b[0])<<56\<close>, each after the
  bounds check \<^verbatim>\<open>_ = b[7]\<close> (\<^verbatim>\<open>_ = b[3]\<close> for 32 bits).
\<close>

definition be64 :: "64 word \<Rightarrow> byte list" where
  "be64 v = [ucast (drop_bit 56 v), ucast (drop_bit 48 v), ucast (drop_bit 40 v),
             ucast (drop_bit 32 v), ucast (drop_bit 24 v), ucast (drop_bit 16 v),
             ucast (drop_bit 8 v), ucast v]"

definition be32 :: "32 word \<Rightarrow> byte list" where
  "be32 v = [ucast (drop_bit 24 v), ucast (drop_bit 16 v), ucast (drop_bit 8 v), ucast v]"

definition PutUint64 :: "byte list \<Rightarrow> nat \<Rightarrow> 64 word \<Rightarrow> error + byte list" where
  \<comment> \<open>\<^verbatim>\<open>binary.BigEndian.PutUint64(buf[off:], v)\<close>\<close>
  "PutUint64 buf off v =
     (if off + 8 \<le> length buf then Inr (take off buf @ be64 v @ drop (off + 8) buf)
      else Inl Panic)"

definition PutUint32 :: "byte list \<Rightarrow> nat \<Rightarrow> 32 word \<Rightarrow> error + byte list" where
  \<comment> \<open>\<^verbatim>\<open>binary.BigEndian.PutUint32(buf[off:], v)\<close>\<close>
  "PutUint32 buf off v =
     (if off + 4 \<le> length buf then Inr (take off buf @ be32 v @ drop (off + 4) buf)
      else Inl Panic)"

definition Uint64 :: "byte list \<Rightarrow> error + 64 word" where
  "Uint64 b =
     (if 8 \<le> length b
      then Inr (ucast (b ! 7) OR push_bit 8 (ucast (b ! 6)) OR push_bit 16 (ucast (b ! 5))
                OR push_bit 24 (ucast (b ! 4)) OR push_bit 32 (ucast (b ! 3))
                OR push_bit 40 (ucast (b ! 2)) OR push_bit 48 (ucast (b ! 1))
                OR push_bit 56 (ucast (b ! 0)))
      else Inl Panic)"

definition Uint32 :: "byte list \<Rightarrow> error + 32 word" where
  "Uint32 b =
     (if 4 \<le> length b
      then Inr (ucast (b ! 3) OR push_bit 8 (ucast (b ! 2)) OR push_bit 16 (ucast (b ! 1))
                OR push_bit 24 (ucast (b ! 0)))
      else Inl Panic)"

text \<open>
  \<^verbatim>\<open>copy(h.ID[:], src)\<close> into a sixteen-byte array: the first
  \<open>min 16 (len src)\<close> bytes are replaced.
\<close>

definition copy_uuid :: "uuid \<Rightarrow> byte list \<Rightarrow> uuid" where
  "copy_uuid dst src = Abs_uuid (take 16 src @ drop (length src) (Rep_uuid dst))"

section \<open>constants.go\<close>

type_synonym MessageType = byte
type_synonym Flag = byte
type_synonym ProtocolType = byte

definition MessageTypeUnknown :: MessageType where "MessageTypeUnknown = 0"
definition MessageTypeData :: MessageType where "MessageTypeData = 1"
definition MessageTypeBroadcast :: MessageType where "MessageTypeBroadcast = 2"
definition MessageTypeHeartbeat :: MessageType where "MessageTypeHeartbeat = 3"

text \<open>The flag constants are declared with a plain \<^verbatim>\<open>iota\<close>: 0, 1, 2, 3, 4.\<close>

definition FlagNone :: Flag where "FlagNone = 0"
definition FlagACK :: Flag where "FlagACK = 1"
definition FlagError :: Flag where "FlagError = 2"
definition FlagCompressed :: Flag where "FlagCompressed = 3"
definition FlagEncrypted :: Flag where "FlagEncrypted = 4"

definition HasFlag :: "Flag \<Rightarrow> Flag \<Rightarrow> bool" where
  "HasFlag flags flag = (flags AND flag \<noteq> 0)"

definition SetFlag :: "Flag \<Rightarrow> Flag \<Rightarrow> Flag" where
  "SetFlag flags flag = flags OR flag"

definition ClearFlag :: "Flag \<Rightarrow> Flag \<Rightarrow> Flag" where
  "ClearFlag flags flag = flags AND NOT flag"

definition ProtocolTCP :: ProtocolType where "ProtocolTCP = 0"
definition ProtocolUDP :: ProtocolType where "ProtocolUDP = 1"

section \<open>header.go\<close>

record SocketHeader =
  ID :: uuid
  Sender :: uuid
  Receiver :: uuid
  Timestamp :: "64 word"
  Length :: "64 word"
  Sequence :: "32 word"
  Protocol :: ProtocolType
  Flags :: Flag
  MessageType :: MessageType
  Router :: byte

text \<open>\<^verbatim>\<open>&SocketHeader{}\<close>: every field zero.\<close>

definition zero_header :: SocketHeader where
  "zero_header = \<lparr>ID = uuid_Nil, Sender = uuid_Nil, Receiver = uuid_Nil, Timestamp = 0,
     Length = 0, Sequence = 0, Protocol = 0, Flags = 0, MessageType = 0, Router = 0\<rparr>"

definition IsBroadcast :: "SocketHeader \<Rightarrow> bool" where
  "IsBroadcast h = (MessageType h = MessageTypeBroadcast \<and> Receiver h \<noteq> uuid_Nil)"

text \<open>\<open>now\<close> is \<^verbatim>\<open>uint64(time.Now().UnixMilli())\<close>, read by the caller of the model.\<close>

definition SetTimestampIfZero :: "64 word \<Rightarrow> SocketHeader \<Rightarrow> SocketHeader" where
  "SetTimestampIfZero now h = (if Timestamp h = 0 then h\<lparr>Timestamp := now\<rparr> else h)"

definition HeaderSize :: "SocketHeader \<Rightarrow> nat" where
  "HeaderSize h =
     (let size0 = 16 + 16 + 8 + 8 + 1 + 1 + 1 + 1;
          size1 = (if IsBroadcast h then size0 + 16 else size0);
          size2 = (if Protocol h = ProtocolUDP then size1 + 4 else size1)
      in size2)"

section \<open>header\_encoder.go\<close>

text \<open>
  \<open>HeaderEncode\<close> mutates the header it is given (the timestamp) and returns the bytes:
  the model returns both. A nil header is \<open>None\<close>. The running \<^verbatim>\<open>offset\<close> of the
  source is 0, 16, 32, 40 and 48 at the fixed fields and 52 where the optional ones begin.
\<close>

definition HeaderEncode :: "64 word \<Rightarrow> SocketHeader option \<Rightarrow> error + (SocketHeader \<times> byte list)" where
  "HeaderEncode now hp =
     (case hp of
        None \<Rightarrow> Inl EncodeError
      | Some h0 \<Rightarrow>
         (let h = SetTimestampIfZero now h0;
              headerSize = HeaderSize h
          in and_then (copy_at (make_bytes headerSize) 0 (Rep_uuid (ID h))) (\<lambda>buf.
             and_then (copy_at buf 16 (Rep_uuid (Sender h))) (\<lambda>buf.
             and_then (PutUint64 buf 32 (Timestamp h)) (\<lambda>buf.
             and_then (PutUint64 buf 40 (Length h)) (\<lambda>buf.
             and_then (store buf 48 (Flags h)) (\<lambda>buf.
             and_then (store buf (48 + 1) (MessageType h)) (\<lambda>buf.
             and_then (store buf (48 + 2) (Router h)) (\<lambda>buf.
             and_then (store buf (48 + 3) (Protocol h)) (\<lambda>buf.
             and_then (if IsBroadcast h
                       then and_then (copy_at buf 52 (Rep_uuid (Receiver h)))
                              (\<lambda>buf. Inr (buf, 52 + 16))
                       else Inr (buf, 52)) (\<lambda>(buf, offset).
             and_then (if Protocol h = ProtocolUDP
                       then PutUint32 buf offset (Sequence h)
                       else Inr buf) (\<lambda>buf.
             Inr (h, buf)))))))))))))"

text \<open>
  \<open>HeaderDecode\<close> starts from a zero header and fills it field by field. Every index and
  slice expression of the source is a step that can panic.
\<close>

definition HeaderDecode :: "slice \<Rightarrow> error + SocketHeader" where
  "HeaderDecode data =
     (let headerSize = len data;
          minSize = 16 + 16 + 8 + 8 + 4;
          maxSize = minSize + 16 + 4
      in if headerSize < minSize \<or> headerSize > maxSize then Inl DecodeError
         else
           and_then (reslice data 0 16) (\<lambda>b.
           let h = zero_header\<lparr>ID := copy_uuid uuid_Nil b\<rparr> in
           and_then (reslice data 16 32) (\<lambda>b.
           let h = h\<lparr>Sender := copy_uuid uuid_Nil b\<rparr> in
           and_then (and_then (reslice data 32 40) Uint64) (\<lambda>v.
           let h = h\<lparr>Timestamp := v\<rparr> in
           and_then (and_then (reslice data 40 48) Uint64) (\<lambda>v.
           let h = h\<lparr>Length := v\<rparr> in
           and_then (index data 48) (\<lambda>v.
           let h = h\<lparr>Flags := v\<rparr> in
           and_then (index data (48 + 1)) (\<lambda>v.
           let h = h\<lparr>MessageType := v\<rparr> in
           and_then (index data (48 + 2)) (\<lambda>v.
           let h = h\<lparr>Router := v\<rparr> in
           and_then (index data (48 + 3)) (\<lambda>v.
           let h = h\<lparr>Protocol := v\<rparr> in
           and_then (if MessageType h = MessageTypeBroadcast
                     then and_then (reslice data 52 (52 + 16))
                            (\<lambda>b. Inr (h\<lparr>Receiver := copy_uuid uuid_Nil b\<rparr>, 52 + 16))
                     else Inr (h, 52)) (\<lambda>(h, offset).
           and_then (if Protocol h = ProtocolUDP
                     then and_then (and_then (reslice data offset (offset + 4)) Uint32)
                            (\<lambda>v. Inr (h\<lparr>Sequence := v\<rparr>, offset + 4))
                     else Inr (h, offset)) (\<lambda>(h, offset).
           if offset \<noteq> headerSize then Inl DecodeError else Inr h)))))))))))"

section \<open>checksum.go\<close>

text \<open>
  \<^verbatim>\<open>hash/crc32\<close> with the IEEE polynomial, as the standard library's portable
  implementation computes it: \<^verbatim>\<open>simpleMakeTable\<close> shifts each of the 256 byte
  values eight times (\<^verbatim>\<open>if crc&1 == 1 { crc = (crc >> 1) ^ poly } else { crc >>= 1 }\<close>),
  and \<^verbatim>\<open>simpleUpdate\<close> folds the bytes with
  \<^verbatim>\<open>crc = tab[byte(crc)^v] ^ (crc >> 8)\<close> between two complements.
\<close>

definition IEEE :: "32 word" where
  "IEEE = 0xedb88320"

definition crc_shift :: "32 word \<Rightarrow> 32 word \<Rightarrow> 32 word" where
  "crc_shift poly crc = (if crc AND 1 = 1 then drop_bit 1 crc XOR poly else drop_bit 1 crc)"

definition simpleMakeTable :: "32 word \<Rightarrow> byte \<Rightarrow> 32 word" where
  "simpleMakeTable poly i = (crc_shift poly ^^ 8) (ucast i)"

fun simpleUpdate_loop :: "(byte \<Rightarrow> 32 word) \<Rightarrow> 32 word \<Rightarrow> byte list \<Rightarrow> 32 word" where
  "simpleUpdate_loop tab crc [] = crc"
| "simpleUpdate_loop tab crc (v # p) =
     simpleUpdate_loop tab (tab (ucast crc XOR v) XOR drop_bit 8 crc) p"

definition simpleUpdate :: "32 word \<Rightarrow> (byte \<Rightarrow> 32 word) \<Rightarrow> byte list \<Rightarrow> 32 word" where
  "simpleUpdate crc tab p = NOT (simpleUpdate_loop tab (NOT crc) p)"

definition CRC32Table :: "byte \<Rightarrow> 32 word" where
  "CRC32Table = simpleMakeTable IEEE"

text \<open>
  \<^verbatim>\<open>crc32.New(CRC32Table)\<close> starts a digest at 0, \<^verbatim>\<open>Write\<close> updates it
  with the payload, \<^verbatim>\<open>Sum32\<close> returns it.
\<close>

definition Checksum :: "byte list \<Rightarrow> 32 word" where
  "Checksum payload = simpleUpdate 0 CRC32Table payload"

section \<open>connection.go\<close>

text \<open>
  The statements both \<open>WriteFrame\<close> methods share, from \<^verbatim>\<open>make([]byte, messageSize)\<close>
  to the checksum trailer: the one-byte header length, the header, the payload and the
  big-endian checksum of the payload in the last four bytes.
\<close>

definition fill_message :: "nat \<Rightarrow> byte list \<Rightarrow> byte list \<Rightarrow> error + byte list" where
  "fill_message messageSize headerBytes payload =
     (let encodedHeaderLen = length headerBytes;
          message = make_bytes messageSize
      in and_then (store message 0 (of_nat encodedHeaderLen)) (\<lambda>message.
         and_then (copy_at message 1 headerBytes) (\<lambda>message.
         let payloadStart = 1 + encodedHeaderLen in
         and_then (copy_at message payloadStart payload) (\<lambda>message.
         let checksum = Checksum payload in
         if length message < 4 then Inl Panic
         else PutUint32 message (length message - 4) checksum))))"

subsection \<open>Stream transport\<close>

text \<open>
  The wrapped \<^verbatim>\<open>net.Conn\<close> is the environment. On the write side \<open>conn_ok\<close> says
  whether \<^verbatim>\<open>conn.Write\<close> accepts the message; a successful call returns the bytes
  written. On the read side the connection is the sequence of bytes that arrive before the
  stream ends; \<^verbatim>\<open>io.ReadFull\<close> takes exactly \<open>n\<close> of them or fails.
\<close>

record tcpConnWrapper =
  tcp_sender :: uuid

definition tcp_WriteFrame ::
  "tcpConnWrapper \<Rightarrow> 64 word \<Rightarrow> bool \<Rightarrow> SocketHeader option \<Rightarrow> byte list
     \<Rightarrow> SocketHeader option \<times> (error + byte list)" where
  "tcp_WriteFrame t now conn_ok header payload =
     (case header of
        None \<Rightarrow> (None, Inl HeaderNil)
      | Some h0 \<Rightarrow>
         (let h1 = h0\<lparr>Length := of_nat (length payload)\<rparr> in
          case HeaderEncode now (Some h1) of
            Inl e \<Rightarrow> (Some h1, Inl e)
          | Inr (h2, headerBytes) \<Rightarrow>
             (let encodedHeaderLen = length headerBytes;
                  messageSize = 1 + encodedHeaderLen + length payload + 4
              in (Some h2,
                  and_then (fill_message messageSize headerBytes payload) (\<lambda>message.
                  if conn_ok then Inr message else Inl WriteError)))))"

definition ReadFull :: "byte list \<Rightarrow> nat \<Rightarrow> error + (byte list \<times> byte list)" where
  "ReadFull stream n =
     (if n \<le> length stream then Inr (take n stream, drop n stream) else Inl ReadError)"

text \<open>
  \<^verbatim>\<open>make([]byte, h.Length+4)\<close> adds in 64 bits and panics
  (\<^verbatim>\<open>makeslice: len out of range\<close>) when the sum exceeds what the allocator can
  address: \<^verbatim>\<open>maxAlloc\<close> of the Go runtime, \<open>2 ^ 48\<close> bytes on 64-bit Linux.
  Running out of memory below that limit is not modelled. The slice expressions
  \<^verbatim>\<open>PayloadSize[len(PayloadSize)-4:]\<close> panic when fewer than four bytes were read.
\<close>

definition maxAlloc :: nat where
  "maxAlloc = 2 ^ 48"

definition tcp_ReadFrame :: "byte list \<Rightarrow> error + (SocketHeader \<times> byte list)" where
  "tcp_ReadFrame stream =
     and_then (ReadFull stream 1) (\<lambda>(HeaderSize_prefix, stream).
     and_then (ReadFull stream (unat (HeaderSize_prefix ! 0))) (\<lambda>(headerBytes, stream).
     and_then (HeaderDecode (Slice headerBytes [])) (\<lambda>h.
     let n = Length h + 4 in
     if maxAlloc < unat n then Inl Panic
     else
       and_then (ReadFull stream (unat n)) (\<lambda>(PayloadSize, stream).
       if length PayloadSize < 4 then Inl Panic
       else
         (let checksumBytes = drop (length PayloadSize - 4) PayloadSize;
              payloadData = take (length PayloadSize - 4) PayloadSize
          in and_then (Uint32 checksumBytes) (\<lambda>checksum.
             if checksum \<noteq> Checksum payloadData then Inl ChecksumMismatch
             else Inr (h, payloadData)))))))"

subsection \<open>Datagram transport\<close>

record udpConnWrapper =
  maxMessageSize :: int
  sender :: uuid
  sequence :: "32 word"

text \<open>\<open>fresh\<close> is the identifier \<^verbatim>\<open>uuid.New()\<close> returns.\<close>

definition NewUDPConnWrapper :: "int \<Rightarrow> uuid \<Rightarrow> udpConnWrapper" where
  "NewUDPConnWrapper maxSize fresh = \<lparr>maxMessageSize = maxSize, sender = fresh, sequence = 0\<rparr>"

text \<open>
  \<open>udp_WriteFrame\<close> returns the wrapper after the call, the caller's header after the call
  and the outcome; \<open>pc_ok\<close> says whether \<^verbatim>\<open>pc.WriteTo\<close> accepts the packet.
\<close>

definition udp_WriteFrame ::
  "udpConnWrapper \<Rightarrow> 64 word \<Rightarrow> bool \<Rightarrow> SocketHeader option \<Rightarrow> byte list
     \<Rightarrow> udpConnWrapper \<times> SocketHeader option \<times> (error + byte list)" where
  "udp_WriteFrame u now pc_ok header payload =
     (case header of
        None \<Rightarrow> (u, None, Inl HeaderNil)
      | Some h0 \<Rightarrow>
         (let h1 = h0\<lparr>Sender := sender u, Protocol := ProtocolUDP, Sequence := sequence u\<rparr>;
              u1 = u\<lparr>sequence := sequence u + 1\<rparr>;
              h2 = h1\<lparr>Length := of_nat (length payload)\<rparr>
          in case HeaderEncode now (Some h2) of
               Inl e \<Rightarrow> (u1, Some h2, Inl e)
             | Inr (h3, headerBytes) \<Rightarrow>
                (let encodedHeaderLen = length headerBytes;
                     messageSize = 1 + encodedHeaderLen + length payload + 4
                 in if int messageSize > maxMessageSize u1 then (u1, Some h3, Inl MessageTooLarge)
                    else (u1, Some h3,
                          and_then (fill_message messageSize headerBytes payload) (\<lambda>message.
                          if pc_ok then Inr message else Inl WriteError)))))"

text \<open>
  Consecutive \<open>WriteFrame\<close> calls on one wrapper: each call is the time, the outcome of
  the network write, the header (or nil) and the payload; the result lists, call by call,
  the header after the call and the outcome, and ends with the wrapper after the last call.
\<close>

type_synonym write_call = "64 word \<times> bool \<times> SocketHeader option \<times> byte list"

fun udp_WriteFrames ::
  "udpConnWrapper \<Rightarrow> write_call list \<Rightarrow> (SocketHeader option \<times> (error + byte list)) list \<times> udpConnWrapper" where
  "udp_WriteFrames u [] = ([], u)"
| "udp_WriteFrames u ((now, pc_ok, header, payload) # cs) =
     (case udp_WriteFrame u now pc_ok header payload of
        (u1, h1, r) \<Rightarrow> (case udp_WriteFrames u1 cs of (outs, u2) \<Rightarrow> ((h1, r) # outs, u2)))"

section \<open>The wire format in the words of the specification\<close>

text \<open>
  Big-endian byte order: of the \<open>n\<close> bytes of a value, byte \<open>i\<close> holds the bits of weight
  \<open>256 ^ (n - 1 - i)\<close>, the most significant byte first.
\<close>

definition big_endian :: "nat \<Rightarrow> 'a::len word \<Rightarrow> byte list" where
  "big_endian n v = map (\<lambda>i. ucast (drop_bit (8 * (n - 1 - i)) v)) [0..<n]"

text \<open>
  The encoded header: identifier, sender, timestamp, length, the four control bytes, then
  the receiver when the message is a broadcast with a non-zero receiver, then the sequence
  number when the protocol is the datagram one.
\<close>

definition wire_format :: "SocketHeader \<Rightarrow> byte list" where
  "wire_format h =
     Rep_uuid (ID h) @ Rep_uuid (Sender h) @ big_endian 8 (Timestamp h) @ big_endian 8 (Length h) @
     [Flags h, MessageType h, Router h, Protocol h] @
     (if MessageType h = MessageTypeBroadcast \<and> Receiver h \<noteq> uuid_Nil
      then Rep_uuid (Receiver h) else []) @
     (if Protocol h = ProtocolUDP then big_endian 4 (Sequence h) else [])"

text \<open>The same bytes, written with the functions of the encoder.\<close>

definition header_layout :: "SocketHeader \<Rightarrow> byte list" where
  "header_layout h =
     Rep_uuid (ID h) @ Rep_uuid (Sender h) @ be64 (Timestamp h) @ be64 (Length h) @
     [Flags h, MessageType h, Router h, Protocol h] @
     (if MessageType h = MessageTypeBroadcast \<and> Receiver h \<noteq> uuid_Nil then Rep_uuid (Receiver h) else []) @
     (if Protocol h = ProtocolUDP then be32 (Sequence h) else [])"

text \<open>
  A frame: one byte of header length, the header, the payload, the checksum of the payload.
\<close>

definition frame_layout :: "SocketHeader \<Rightarrow> byte list \<Rightarrow> byte list" where
  "frame_layout h payload =
     of_nat (length (header_layout h)) # header_layout h @ payload @ be32 (Checksum payload)"

text \<open>
  What a header looks like after a trip over the wire: the fields that are not transmitted
  come back zero.
\<close>

definition on_wire :: "SocketHeader \<Rightarrow> SocketHeader" where
  "on_wire h = h\<lparr>Receiver := if MessageType h = MessageTypeBroadcast then Receiver h else uuid_Nil,
                   Sequence := if Protocol h = ProtocolUDP then Sequence h else 0\<rparr>"

text \<open>
  The two halves of \<open>tcp_ReadFrame\<close> after the header is decoded, named so that the
  proofs can treat them one at a time.
\<close>

definition check_trailer :: "SocketHeader \<Rightarrow> byte list \<Rightarrow> error + (SocketHeader \<times> byte list)" where
  "check_trailer h PayloadSize =
     (if length PayloadSize < 4 then Inl Panic
      else
        (let checksumBytes = drop (length PayloadSize - 4) PayloadSize;
             payloadData = take (length PayloadSize - 4) PayloadSize
         in and_then (Uint32 checksumBytes) (\<lambda>checksum.
            if checksum \<noteq> Checksum payloadData then Inl ChecksumMismatch
            else Inr (h, payloadData))))"

definition read_body :: "byte list \<Rightarrow> SocketHeader \<Rightarrow> error + (SocketHeader \<times> byte list)" where
  "read_body stream h =
     (let n = Length h + 4 in
      if maxAlloc < unat n then Inl Panic
      else and_then (ReadFull stream (unat n)) (\<lambda>(PayloadSize, stream). check_trailer h PayloadSize))"

text \<open>
  The CRC-32 with the IEEE polynomial
  \<open>x\<^sup>3\<^sup>2 + x\<^sup>2\<^sup>6 + x\<^sup>2\<^sup>3 + x\<^sup>2\<^sup>2 + x\<^sup>1\<^sup>6 + x\<^sup>1\<^sup>2 + x\<^sup>1\<^sup>1 + x\<^sup>1\<^sup>0 + x\<^sup>8 + x\<^sup>7 + x\<^sup>5 + x\<^sup>4 + x\<^sup>2 + x + 1\<close>,
  as the CRC catalogue defines it: the register starts at all ones, every byte is added to
  its low end and divided out bit by bit, least significant bit first (so the polynomial is
  used bit-reversed, the coefficient of \<open>x\<^sup>e\<close> at bit \<open>31 - e\<close>), and the result is
  complemented. Its check value, the CRC of the ASCII digits \<^verbatim>\<open>123456789\<close>, is
  \<open>0xCBF43926\<close>.
\<close>

definition ieee_exponents :: "nat list" where
  "ieee_exponents = [26, 23, 22, 16, 12, 11, 10, 8, 7, 5, 4, 2, 1, 0]"

definition ieee_reflected :: "32 word" where
  "ieee_reflected = foldr (\<lambda>e w. w OR push_bit (31 - e) 1) ieee_exponents 0"

definition crc32_bit :: "32 word \<Rightarrow> 32 word" where
  "crc32_bit c = (if bit c 0 then drop_bit 1 c XOR ieee_reflected else drop_bit 1 c)"

fun crc32_register :: "32 word \<Rightarrow> byte list \<Rightarrow> 32 word" where
  "crc32_register c [] = c"
| "crc32_register c (v # p) = crc32_register ((crc32_bit ^^ 8) (c XOR ucast v)) p"

definition crc32_ieee :: "byte list \<Rightarrow> 32 word" where
  "crc32_ieee p = NOT (crc32_register 0xFFFFFFFF p)"

section \<open>Sequence numbers of a run, and the concrete inputs of the examples\<close>

text \<open>
  The sequence numbers of the frames a run sent, in order: those of the calls that
  succeeded. \<open>all_sent\<close> says that every call of the run succeeded.
\<close>

definition sent_sequences :: "(SocketHeader option \<times> (error + byte list)) list \<Rightarrow> 32 word list" where
  "sent_sequences outs =
     concat (map (\<lambda>(h, r). case h of None \<Rightarrow> []
                          | Some g \<Rightarrow> (case r of Inl e \<Rightarrow> [] | Inr m \<Rightarrow> [Sequence g])) outs)"

definition all_sent :: "(SocketHeader option \<times> (error + byte list)) list \<Rightarrow> bool" where
  "all_sent outs = list_all (\<lambda>(h, r). \<not> isl r) outs"

definition example_header :: SocketHeader where
  "example_header = zero_header\<lparr>MessageType := MessageTypeData, Router := 42\<rparr>"

definition example_call :: write_call where
  "example_call = (1, True, Some example_header, [])"

definition example_tcp :: tcpConnWrapper where
  "example_tcp = \<lparr>tcp_sender = uuid_Nil\<rparr>"

text \<open>A broadcast to nobody in particular: message type broadcast, receiver \<^verbatim>\<open>uuid.Nil\<close>.\<close>

definition broadcast_nil_header :: SocketHeader where
  "broadcast_nil_header = zero_header\<lparr>MessageType := MessageTypeBroadcast, Router := 42\<rparr>"

text \<open>
  Fifty-two bytes whose message-type byte (index 49) says broadcast, and fifty-two bytes
  whose protocol byte (index 51) says UDP: headers cut off before their optional block.
\<close>

definition short_broadcast_bytes :: "byte list" where
  "short_broadcast_bytes = replicate 49 0 @ [2, 0, 0]"

definition short_datagram_bytes :: "byte list" where
  "short_datagram_bytes = replicate 51 0 @ [1]"

text \<open>A datagram wrapper whose counter stands at the largest 32-bit value.\<close>

definition wrapping_conn :: udpConnWrapper where
  "wrapping_conn = \<lparr>maxMessageSize = 1024, sender = uuid_Nil, sequence = 0xFFFFFFFF\<rparr>"

section \<open>Facts about the primitives, the codec and the framing\<close>

lemma length_Rep_uuid [simp]: "length (Rep_uuid u) = 16"
  using Rep_uuid [of u] by simp

lemma Rep_uuid_Nil [simp]: "Rep_uuid uuid_Nil = replicate 16 0"
  by (simp add: uuid_Nil_def Abs_uuid_inverse)

lemma and_then_Inr [simp]: "and_then (Inr x) f = f x"
  by (simp add: and_then_def)

lemma and_then_Inl [simp]: "and_then (Inl e) f = Inl e"
  by (simp add: and_then_def)

lemma length_be64 [simp]: "length (be64 v) = 8"
  by (simp add: be64_def)

lemma length_be32 [simp]: "length (be32 v) = 4"
  by (simp add: be32_def)

lemma copy_at_block:
  "length pre = off \<Longrightarrow> length old = length src \<Longrightarrow>
   copy_at (pre @ old @ post) off src = Inr (pre @ src @ post)"
  by (simp add: copy_at_def Let_def)

lemma PutUint64_block:
  "length pre = off \<Longrightarrow> length old = 8 \<Longrightarrow>
   PutUint64 (pre @ old @ post) off v = Inr (pre @ be64 v @ post)"
  by (simp add: PutUint64_def)

lemma PutUint32_block:
  "length pre = off \<Longrightarrow> length old = 4 \<Longrightarrow>
   PutUint32 (pre @ old @ post) off v = Inr (pre @ be32 v @ post)"
  by (simp add: PutUint32_def)

lemma store_block:
  "length pre = i \<Longrightarrow> store (pre @ old # post) i b = Inr (pre @ b # post)"
  by (auto simp: store_def)

lemma make_split:
  "make_bytes (52 + n) = replicate 16 0 @ replicate 16 0 @ replicate 8 0 @ replicate 8 0 @ 0 # 0 # 0 # 0 # replicate n 0"
  by (simp add: make_bytes_def replicate_add [symmetric] flip: replicate_Suc) 


lemma fixed_writes:
  assumes "length i1 = 16" "length i2 = 16"
  shows
  "and_then (copy_at (make_bytes (52 + n)) 0 i1) (\<lambda>buf.
   and_then (copy_at buf 16 i2) (\<lambda>buf.
   and_then (PutUint64 buf 32 t) (\<lambda>buf.
   and_then (PutUint64 buf 40 l) (\<lambda>buf.
   and_then (store buf 48 f) (\<lambda>buf.
   and_then (store buf (48 + 1) m) (\<lambda>buf.
   and_then (store buf (48 + 2) r) (\<lambda>buf.
   and_then (store buf (48 + 3) p) k))))))) =
   k ((i1 @ i2 @ be64 t @ be64 l @ [f, m, r, p]) @ replicate n 0)"
proof -
  let ?z = "replicate n (0::byte)"
  have 1: "copy_at (make_bytes (52 + n)) 0 i1 =
      Inr (i1 @ replicate 16 0 @ replicate 8 0 @ replicate 8 0 @ 0 # 0 # 0 # 0 # ?z)"
    using copy_at_block [of "[]" 0 "replicate 16 0" i1] assms by (simp add: make_split)
  have 2: "copy_at (i1 @ replicate 16 0 @ replicate 8 0 @ replicate 8 0 @ 0 # 0 # 0 # 0 # ?z) 16 i2 =
      Inr (i1 @ i2 @ replicate 8 0 @ replicate 8 0 @ 0 # 0 # 0 # 0 # ?z)"
    using copy_at_block [of i1 16 "replicate 16 0" i2] assms by simp
  have 3: "PutUint64 (i1 @ i2 @ replicate 8 0 @ replicate 8 0 @ 0 # 0 # 0 # 0 # ?z) 32 t =
      Inr (i1 @ i2 @ be64 t @ replicate 8 0 @ 0 # 0 # 0 # 0 # ?z)"
    using PutUint64_block [of "i1 @ i2" 32 "replicate 8 0"] assms by simp
  have 4: "PutUint64 (i1 @ i2 @ be64 t @ replicate 8 0 @ 0 # 0 # 0 # 0 # ?z) 40 l =
      Inr (i1 @ i2 @ be64 t @ be64 l @ 0 # 0 # 0 # 0 # ?z)"
    using PutUint64_block [of "i1 @ i2 @ be64 t" 40 "replicate 8 0"] assms by simp
  have 5: "store (i1 @ i2 @ be64 t @ be64 l @ 0 # 0 # 0 # 0 # ?z) 48 f =
      Inr (i1 @ i2 @ be64 t @ be64 l @ f # 0 # 0 # 0 # ?z)"
    using store_block [of "i1 @ i2 @ be64 t @ be64 l" 48] assms by simp
  have 6: "store (i1 @ i2 @ be64 t @ be64 l @ f # 0 # 0 # 0 # ?z) 49 m =
      Inr (i1 @ i2 @ be64 t @ be64 l @ f # m # 0 # 0 # ?z)"
    using store_block [of "i1 @ i2 @ be64 t @ be64 l @ [f]" 49] assms by simp
  have 7: "store (i1 @ i2 @ be64 t @ be64 l @ f # m # 0 # 0 # ?z) 50 r =
      Inr (i1 @ i2 @ be64 t @ be64 l @ f # m # r # 0 # ?z)"
    using store_block [of "i1 @ i2 @ be64 t @ be64 l @ [f, m]" 50] assms by simp
  have 8: "store (i1 @ i2 @ be64 t @ be64 l @ f # m # r # 0 # ?z) 51 p =
      Inr (i1 @ i2 @ be64 t @ be64 l @ f # m # r # p # ?z)"
    using store_block [of "i1 @ i2 @ be64 t @ be64 l @ [f, m, r]" 51] assms by simp
  show ?thesis
    by (simp add: 1 2 3 4 5 6 7 8)
qed

lemma optional_writes:
  assumes "length pre = 52" "length rc = 16"
  shows
  "and_then (if bc then and_then (copy_at (pre @ replicate ((if bc then 16 else 0) + (if udp then 4 else 0)) 0) 52 rc)
                          (\<lambda>buf. Inr (buf, 52 + 16))
             else Inr (pre @ replicate ((if bc then 16 else 0) + (if udp then 4 else 0)) 0, 52)) (\<lambda>(buf, offset).
   and_then (if udp then PutUint32 buf offset sq else Inr buf) k) =
   k (pre @ (if bc then rc else []) @ (if udp then be32 sq else []))"
proof (cases bc)
  case True
  have c: "copy_at (pre @ replicate 16 0 @ post) 52 rc = Inr (pre @ rc @ post)" for post
    using copy_at_block [of pre 52 "replicate 16 0" rc post] assms by simp
  have p: "PutUint32 (pre @ rc @ replicate 4 0) 68 sq = Inr (pre @ rc @ be32 sq)"
    using PutUint32_block [of "pre @ rc" 68 "replicate 4 0" "[]" sq] assms by simp
  have r: "replicate 20 (0::byte) = replicate 16 0 @ replicate 4 0"
    by (simp flip: replicate_add)
  show ?thesis
    using True c [of "replicate 4 0"] c [of "[]"] p
    by (cases udp) (simp_all add: r)
next
  case False
  have p: "PutUint32 (pre @ replicate 4 0) 52 sq = Inr (pre @ be32 sq)"
    using PutUint32_block [of pre 52 "replicate 4 0" "[]" sq] assms by simp
  show ?thesis
    using False p by (cases udp) simp_all
qed

lemma HeaderSize_eq:
  "HeaderSize h = 52 + ((if IsBroadcast h then 16 else 0) + (if Protocol h = ProtocolUDP then 4 else 0))"
  by (simp add: HeaderSize_def Let_def)

lemma HeaderEncode_layout:
  "HeaderEncode now (Some h) = Inr (SetTimestampIfZero now h, header_layout (SetTimestampIfZero now h))"
proof -
  define g where "g = SetTimestampIfZero now h"
  let ?pre = "Rep_uuid (ID g) @ Rep_uuid (Sender g) @ be64 (Timestamp g) @ be64 (Length g) @
     [Flags g, MessageType g, Router g, Protocol g]"
  have lp: "length ?pre = 52" by simp
  note fw = fixed_writes [OF length_Rep_uuid length_Rep_uuid]
  note ow = optional_writes [OF lp length_Rep_uuid]
  have "HeaderEncode now (Some h) = Inr (g, ?pre @ (if IsBroadcast g then Rep_uuid (Receiver g) else []) @
      (if Protocol g = ProtocolUDP then be32 (Sequence g) else []))"
    unfolding HeaderEncode_def option.case Let_def g_def [symmetric] HeaderSize_eq
    by (simp only: fw ow)
  then show ?thesis by (simp add: g_def header_layout_def IsBroadcast_def)
qed



lemma split_low_byte:
  "push_bit 8 (drop_bit 8 w) OR ucast (ucast w :: byte) = (w :: 'a::len word)"
  apply (rule bit_word_eqI)
  apply (simp add: bit_simps cong: conj_cong)
  apply (case_tac "bit w n"; simp)
  apply arith
  done

lemma Uint32_be32 [simp]: "Uint32 (be32 v) = Inr v"
proof -
  have b0: "ucast (ucast (drop_bit 24 v) :: byte) = drop_bit 24 v"
    by (rule bit_word_eqI) (auto simp: bit_simps dest: bit_imp_le_length)
  have s: "\<And>k. drop_bit k v = push_bit 8 (drop_bit (8 + k) v) OR ucast (ucast (drop_bit k v) :: byte)"
    using split_low_byte [of "drop_bit _ v"] by (simp add: drop_bit_drop_bit)
  have "v = drop_bit 0 v" by simp
  also have "\<dots> = push_bit 8 (drop_bit 8 v) OR ucast (ucast v :: byte)"
    using s [of 0] by simp
  also have "drop_bit 8 v = push_bit 8 (drop_bit 16 v) OR ucast (ucast (drop_bit 8 v) :: byte)"
    using s [of 8] by simp
  also have "drop_bit 16 v = push_bit 8 (drop_bit 24 v) OR ucast (ucast (drop_bit 16 v) :: byte)"
    using s [of 16] by simp
  finally have e: "v = push_bit 8 (push_bit 8 (push_bit 8 (drop_bit 24 v)
       OR ucast (ucast (drop_bit 16 v) :: byte)) OR ucast (ucast (drop_bit 8 v) :: byte))
       OR ucast (ucast v :: byte)" .
  have "Uint32 (be32 v) = Inr (push_bit 8 (push_bit 8 (push_bit 8 (drop_bit 24 v)
       OR ucast (ucast (drop_bit 16 v) :: byte)) OR ucast (ucast (drop_bit 8 v) :: byte))
       OR ucast (ucast v :: byte))"
    by (simp add: Uint32_def be32_def b0 push_bit_or push_bit_push_bit or.commute or.left_commute)
  with e show ?thesis by simp
qed

lemma Uint64_be64 [simp]: "Uint64 (be64 v) = Inr v"
proof -
  have b0: "ucast (ucast (drop_bit 56 v) :: byte) = drop_bit 56 v"
    by (rule bit_word_eqI) (auto simp: bit_simps dest: bit_imp_le_length)
  have s: "\<And>k. drop_bit k v = push_bit 8 (drop_bit (8 + k) v) OR ucast (ucast (drop_bit k v) :: byte)"
    using split_low_byte [of "drop_bit _ v"] by (simp add: drop_bit_drop_bit)
  have "v = drop_bit 0 v" by simp
  also have "\<dots> = push_bit 8 (drop_bit 8 v) OR ucast (ucast v :: byte)"
    using s [of 0] by simp
  also have "drop_bit 8 v = push_bit 8 (drop_bit 16 v) OR ucast (ucast (drop_bit 8 v) :: byte)"
    using s [of 8] by simp
  also have "drop_bit 16 v = push_bit 8 (drop_bit 24 v) OR ucast (ucast (drop_bit 16 v) :: byte)"
    using s [of 16] by simp
  also have "drop_bit 24 v = push_bit 8 (drop_bit 32 v) OR ucast (ucast (drop_bit 24 v) :: byte)"
    using s [of 24] by simp
  also have "drop_bit 32 v = push_bit 8 (drop_bit 40 v) OR ucast (ucast (drop_bit 32 v) :: byte)"
    using s [of 32] by simp
  also have "drop_bit 40 v = push_bit 8 (drop_bit 48 v) OR ucast (ucast (drop_bit 40 v) :: byte)"
    using s [of 40] by simp
  also have "drop_bit 48 v = push_bit 8 (drop_bit 56 v) OR ucast (ucast (drop_bit 48 v) :: byte)"
    using s [of 48] by simp
  finally have e: "v = push_bit 8 (push_bit 8 (push_bit 8 (push_bit 8 (push_bit 8 (push_bit 8 (push_bit 8 (drop_bit 56 v)
       OR ucast (ucast (drop_bit 48 v) :: byte)) OR ucast (ucast (drop_bit 40 v) :: byte))
       OR ucast (ucast (drop_bit 32 v) :: byte)) OR ucast (ucast (drop_bit 24 v) :: byte))
       OR ucast (ucast (drop_bit 16 v) :: byte)) OR ucast (ucast (drop_bit 8 v) :: byte)) OR ucast (ucast v :: byte)" .
  have "Uint64 (be64 v) = Inr (push_bit 8 (push_bit 8 (push_bit 8 (push_bit 8 (push_bit 8 (push_bit 8 (push_bit 8 (drop_bit 56 v)
       OR ucast (ucast (drop_bit 48 v) :: byte)) OR ucast (ucast (drop_bit 40 v) :: byte))
       OR ucast (ucast (drop_bit 32 v) :: byte)) OR ucast (ucast (drop_bit 24 v) :: byte))
       OR ucast (ucast (drop_bit 16 v) :: byte)) OR ucast (ucast (drop_bit 8 v) :: byte)) OR ucast (ucast v :: byte))"
    by (simp add: Uint64_def be64_def b0 push_bit_or push_bit_push_bit or.commute or.left_commute)
  with e show ?thesis by simp
qed

lemma copy_uuid_Rep [simp]: "copy_uuid d (Rep_uuid u) = u"
  by (simp add: copy_uuid_def Rep_uuid_inverse)

lemma be64_big_endian: "be64 v = big_endian 8 v"
  by (simp add: be64_def big_endian_def upt_rec)

lemma be32_big_endian: "be32 v = big_endian 4 v"
  by (simp add: be32_def big_endian_def upt_rec)

lemma HeaderDecode_layout:
  assumes "MessageType h = MessageTypeBroadcast \<longrightarrow> Receiver h \<noteq> uuid_Nil"
  shows "HeaderDecode (Slice (header_layout h) sp) =
     Inr (h\<lparr>Receiver := if MessageType h = MessageTypeBroadcast then Receiver h else uuid_Nil,
            Sequence := if Protocol h = ProtocolUDP then Sequence h else 0\<rparr>)"
  using assms
  apply (simp add: HeaderDecode_def Let_def reslice_def cap_def len_def index_def header_layout_def nth_append zero_header_def)
  done

lemma crc_shift_alt: "crc_shift poly c = drop_bit 1 c XOR (if bit c 0 then poly else 0)"
  by (simp add: crc_shift_def and_one_eq bit_0 odd_iff_mod_2_eq_one)



lemma crc_shift_xor:
  "crc_shift poly (x XOR y) = crc_shift poly x XOR crc_shift poly y"
  by (rule bit_word_eqI) (auto simp: crc_shift_alt bit_simps)

lemma crc_shift_funpow_xor:
  "(crc_shift poly ^^ k) (x XOR y) = (crc_shift poly ^^ k) x XOR (crc_shift poly ^^ k) y"
  by (induction k arbitrary: x y) (simp_all add: funpow_swap1 crc_shift_xor)

lemma crc_shift_funpow_low_zero:
  "take_bit k x = 0 \<Longrightarrow> (crc_shift poly ^^ k) x = drop_bit k x"
proof (induction k arbitrary: x)
  case 0
  then show ?case by simp
next
  case (Suc k)
  have "bit (take_bit (Suc k) x) 0 = bit x 0"
    by (simp add: bit_take_bit_iff)
  with Suc.prems have b: "\<not> bit x 0"
    by simp
  have "take_bit k (drop_bit 1 x) = drop_bit 1 (take_bit (Suc k) x)"
    by (simp add: take_bit_drop_bit)
  with Suc.prems have t: "take_bit k (drop_bit 1 x) = 0"
    by simp
  have "(crc_shift poly ^^ Suc k) x = (crc_shift poly ^^ k) (crc_shift poly x)"
    by (simp add: funpow_swap1)
  also have "crc_shift poly x = drop_bit 1 x"
    using b by (simp add: crc_shift_alt)
  also have "(crc_shift poly ^^ k) (drop_bit 1 x) = drop_bit k (drop_bit 1 x)"
    by (rule Suc.IH [OF t])
  finally show ?case by (simp add: drop_bit_drop_bit)
qed

lemma xor_right_cancel_word: "a XOR c = b XOR c \<Longrightarrow> a = (b :: 'a::len word)"
proof -
  assume "a XOR c = b XOR c"
  then have "(a XOR c) XOR c = (b XOR c) XOR c" by simp
  then show ?thesis by (simp add: xor.assoc)
qed

lemma ucast_byte_inj: "(ucast (v :: byte) :: 32 word) = ucast v' \<Longrightarrow> v = v'"
proof -
  have r: "(ucast (ucast w :: 32 word) :: byte) = w" for w
    by (rule bit_word_eqI) (auto simp: bit_simps)
  assume "(ucast v :: 32 word) = ucast v'"
  then have "(ucast (ucast v :: 32 word) :: byte) = ucast (ucast v' :: 32 word)" by simp
  then show ?thesis by (simp only: r)
qed

lemma crc_shift_IEEE_inj: "crc_shift IEEE x = crc_shift IEEE y \<Longrightarrow> x = y"
proof -
  assume e: "crc_shift IEEE x = crc_shift IEEE y"
  have top: "bit (crc_shift IEEE z) 31 = bit z 0" for z
    by (auto simp: crc_shift_alt bit_simps IEEE_def dest: bit_imp_le_length)
  from e have b0: "bit x 0 = bit y 0"
    using top [of x] top [of y] by simp
  have d: "drop_bit 1 x = drop_bit 1 y"
  proof (cases "bit y 0")
    case True
    with e b0 have "drop_bit 1 x XOR IEEE = drop_bit 1 y XOR IEEE"
      by (simp add: crc_shift_alt)
    then show ?thesis by (rule xor_right_cancel_word)
  next
    case False
    with e b0 show ?thesis by (simp add: crc_shift_alt)
  qed
  show "x = y"
  proof (rule bit_word_eqI)
    fix n assume "n < LENGTH(32)"
    show "bit x n = bit y n"
    proof (cases n)
      case 0 with b0 show ?thesis by simp
    next
      case (Suc m)
      have "bit (drop_bit 1 x) m = bit (drop_bit 1 y) m" using d by simp
      then show ?thesis using Suc by (simp add: bit_drop_bit_eq)
    qed
  qed
qed

lemma crc_shift_funpow_inj:
  "(crc_shift IEEE ^^ k) x = (crc_shift IEEE ^^ k) y \<Longrightarrow> x = y"
  by (induction k arbitrary: x y) (auto dest: crc_shift_IEEE_inj)

lemma split_state:
  "(s :: 32 word) XOR ucast (v :: byte) = push_bit 8 (drop_bit 8 s) XOR ucast (ucast s XOR v :: byte)"
proof (rule bit_word_eqI)
  fix n assume "n < LENGTH(32)"
  show "bit (s XOR ucast v) n = bit (push_bit 8 (drop_bit 8 s) XOR ucast (ucast s XOR v :: byte)) n"
  proof (cases "n < 8")
    case True
    then show ?thesis by (simp add: bit_simps)
  next
    case False
    then have "8 + (n - 8) = n" by simp
    moreover have "\<not> bit v n"
      using False bit_imp_le_length [of v n] by auto
    ultimately show ?thesis
      using False \<open>n < LENGTH(32)\<close> by (simp add: bit_simps)
  qed
qed

lemma table_step:
  "CRC32Table (ucast s XOR v) XOR drop_bit 8 s = (crc_shift IEEE ^^ 8) (s XOR ucast v)"
proof -
  have z: "take_bit 8 (push_bit 8 (drop_bit 8 s)) = 0"
    by (simp add: take_bit_push_bit)
  have d: "drop_bit 8 (push_bit 8 (drop_bit 8 s)) = drop_bit 8 s"
  proof (rule bit_word_eqI)
    fix n assume "n < LENGTH(32)"
    have "bit s (8 + n) \<Longrightarrow> 8 + n < 32"
      using bit_imp_le_length [of s "8 + n"] by simp
    then show "bit (drop_bit 8 (push_bit 8 (drop_bit 8 s))) n = bit (drop_bit 8 s) n"
      by (auto simp: bit_simps)
  qed
  have "(crc_shift IEEE ^^ 8) (s XOR ucast v) =
      (crc_shift IEEE ^^ 8) (push_bit 8 (drop_bit 8 s) XOR ucast (ucast s XOR v :: byte))"
    by (rule arg_cong [OF split_state])
  also have "\<dots> = (crc_shift IEEE ^^ 8) (push_bit 8 (drop_bit 8 s)) XOR
      (crc_shift IEEE ^^ 8) (ucast (ucast s XOR v :: byte))"
    by (rule crc_shift_funpow_xor)
  also have "(crc_shift IEEE ^^ 8) (push_bit 8 (drop_bit 8 s)) = drop_bit 8 s"
    using crc_shift_funpow_low_zero [OF z, of IEEE] d by simp
  finally show ?thesis
    by (simp only: CRC32Table_def simpleMakeTable_def xor.commute)
qed

lemma step_inj_state:
  assumes "CRC32Table (ucast s XOR v) XOR drop_bit 8 s = CRC32Table (ucast s' XOR v) XOR drop_bit 8 s'"
  shows "s = s'"
proof -
  from assms have "(crc_shift IEEE ^^ 8) (s XOR ucast v) = (crc_shift IEEE ^^ 8) (s' XOR ucast v)"
    by (simp only: table_step)
  then have "s XOR ucast v = s' XOR ucast v"
    by (rule crc_shift_funpow_inj)
  then show ?thesis
    by (rule xor_right_cancel_word)
qed

lemma step_inj_byte:
  assumes "CRC32Table (ucast s XOR v) XOR drop_bit 8 s = CRC32Table (ucast s XOR v') XOR drop_bit 8 s"
  shows "v = v'"
proof -
  from assms have "(crc_shift IEEE ^^ 8) (s XOR ucast v) = (crc_shift IEEE ^^ 8) (s XOR ucast v')"
    by (simp only: table_step)
  then have "s XOR ucast v = s XOR ucast v'"
    by (rule crc_shift_funpow_inj)
  then have "ucast v XOR s = ucast v' XOR s"
    by (simp only: xor.commute [of s])
  then have "(ucast v :: 32 word) = ucast v'"
    by (rule xor_right_cancel_word)
  then show ?thesis
    by (rule ucast_byte_inj)
qed

lemma loop_inj:
  "simpleUpdate_loop CRC32Table c p = simpleUpdate_loop CRC32Table c' p \<Longrightarrow> c = c'"
proof (induction p arbitrary: c c')
  case Nil
  then show ?case by simp
next
  case (Cons v p)
  from Cons.prems have "simpleUpdate_loop CRC32Table (CRC32Table (ucast c XOR v) XOR drop_bit 8 c) p =
      simpleUpdate_loop CRC32Table (CRC32Table (ucast c' XOR v) XOR drop_bit 8 c') p"
    by simp
  then have "CRC32Table (ucast c XOR v) XOR drop_bit 8 c = CRC32Table (ucast c' XOR v) XOR drop_bit 8 c'"
    by (rule Cons.IH)
  then show ?case
    by (rule step_inj_state)
qed

lemma loop_flip:
  "i < length p \<Longrightarrow> b \<noteq> p ! i \<Longrightarrow>
   simpleUpdate_loop CRC32Table c (p[i := b]) \<noteq> simpleUpdate_loop CRC32Table c p"
proof (induction p arbitrary: c i)
  case Nil
  then show ?case by simp
next
  case (Cons v p)
  show ?case
  proof (cases i)
    case 0
    with Cons.prems have ne: "b \<noteq> v" by simp
    show ?thesis
    proof
      assume "simpleUpdate_loop CRC32Table c ((v # p)[i := b]) = simpleUpdate_loop CRC32Table c (v # p)"
      with 0 have "simpleUpdate_loop CRC32Table (CRC32Table (ucast c XOR b) XOR drop_bit 8 c) p =
          simpleUpdate_loop CRC32Table (CRC32Table (ucast c XOR v) XOR drop_bit 8 c) p"
        by simp
      then have "CRC32Table (ucast c XOR b) XOR drop_bit 8 c = CRC32Table (ucast c XOR v) XOR drop_bit 8 c"
        by (rule loop_inj)
      then have "b = v"
        by (rule step_inj_byte)
      with ne show False by simp
    qed
  next
    case (Suc j)
    with Cons.prems have "j < length p" "b \<noteq> p ! j" by simp_all
    from Cons.IH [OF this] show ?thesis using Suc by simp
  qed
qed

lemma Checksum_flip:
  "i < length p \<Longrightarrow> b \<noteq> p ! i \<Longrightarrow> Checksum (p[i := b]) \<noteq> Checksum p"
  by (simp add: Checksum_def simpleUpdate_def loop_flip)

lemma length_header_layout: "length (header_layout h) = HeaderSize h"
  by (simp add: header_layout_def HeaderSize_eq IsBroadcast_def)

lemma fill_message_eq:
  assumes "n = length hb + length p + 5"
  shows "fill_message n hb p = Inr (of_nat (length hb) # hb @ p @ be32 (Checksum p))"
proof -
  let ?zh = "replicate (length hb) (0::byte)" and ?zp = "replicate (length p) (0::byte)"
  have "n = Suc (length hb + (length p + 4))"
    using assms by simp
  then have m: "make_bytes n = 0 # ?zh @ ?zp @ replicate 4 0"
    by (simp only: make_bytes_def replicate_Suc replicate_add)
  have 1: "store (0 # ?zh @ ?zp @ replicate 4 0) 0 b = Inr (b # ?zh @ ?zp @ replicate 4 0)" for b
    by (simp add: store_def)
  have 2: "copy_at (b # ?zh @ ?zp @ replicate 4 0) 1 hb = Inr (b # hb @ ?zp @ replicate 4 0)" for b
    using copy_at_block [of "[b]" 1 ?zh hb] by simp
  have 3: "copy_at (b # hb @ ?zp @ replicate 4 0) (1 + length hb) p = Inr (b # hb @ p @ replicate 4 0)" for b
    using copy_at_block [of "b # hb" "1 + length hb" ?zp p] by simp
  have 4: "PutUint32 (b # hb @ p @ replicate 4 0) (length (b # hb @ p @ replicate 4 0) - 4) c =
      Inr (b # hb @ p @ be32 c)" for b c
    using PutUint32_block [of "b # hb @ p" "1 + length hb + length p" "replicate 4 0" "[]" c] by simp
  have 5: "\<not> length (b # hb @ p @ replicate 4 (0::byte)) < 4" for b
    by simp
  show ?thesis
    unfolding fill_message_def Let_def m
    by (simp only: 1 2 3 4 5 and_then_Inr if_False)
qed

lemma tcp_WriteFrame_eq:
  "tcp_WriteFrame t now conn_ok (Some h) p =
     (Some (SetTimestampIfZero now (h\<lparr>Length := of_nat (length p)\<rparr>)),
      if conn_ok then Inr (frame_layout (SetTimestampIfZero now (h\<lparr>Length := of_nat (length p)\<rparr>)) p)
      else Inl WriteError)"
  by (simp add: tcp_WriteFrame_def HeaderEncode_layout Let_def fill_message_eq frame_layout_def)

lemma udp_WriteFrame_eq:
  "udp_WriteFrame u now pc_ok (Some h) p =
     (let g = SetTimestampIfZero now
                (h\<lparr>Sender := sender u, Protocol := ProtocolUDP, Sequence := sequence u,
                   Length := of_nat (length p)\<rparr>)
      in (u\<lparr>sequence := sequence u + 1\<rparr>, Some g,
          if int (1 + HeaderSize g + length p + 4) > maxMessageSize u then Inl MessageTooLarge
          else if pc_ok then Inr (frame_layout g p) else Inl WriteError))"
  by (simp add: udp_WriteFrame_def HeaderEncode_layout Let_def fill_message_eq frame_layout_def
      length_header_layout)


lemma ReadFull_ok: "n \<le> length xs \<Longrightarrow> ReadFull xs n = Inr (take n xs, drop n xs)"
  by (simp add: ReadFull_def)

lemma ReadFull_short: "length xs < n \<Longrightarrow> ReadFull xs n = Inl ReadError"
  by (simp add: ReadFull_def)

lemma tcp_ReadFrame_steps:
  "tcp_ReadFrame stream =
     and_then (ReadFull stream 1) (\<lambda>(HeaderSize_prefix, stream).
     and_then (ReadFull stream (unat (HeaderSize_prefix ! 0))) (\<lambda>(headerBytes, stream).
     and_then (HeaderDecode (Slice headerBytes [])) (\<lambda>h. read_body stream h)))"
  unfolding tcp_ReadFrame_def read_body_def check_trailer_def Let_def ..

lemma tcp_ReadFrame_header:
  assumes "1 + unat (inp ! 0) \<le> length inp"
  shows "tcp_ReadFrame inp =
     and_then (HeaderDecode (Slice (take (unat (inp ! 0)) (drop 1 inp)) []))
       (\<lambda>h. read_body (drop (1 + unat (inp ! 0)) inp) h)"
proof -
  from assms obtain b bs where inp: "inp = b # bs"
    by (cases inp) auto
  with assms have l: "unat b \<le> length bs" by simp
  show ?thesis
    unfolding tcp_ReadFrame_steps inp
    by (simp add: ReadFull_def l)
qed

lemma read_body_ok:
  assumes "unat (Length h + 4) \<le> maxAlloc" "4 \<le> unat (Length h + 4)"
    and "unat (Length h + 4) \<le> length rest"
  shows "read_body rest h =
     (if Uint32 (take 4 (drop (unat (Length h + 4) - 4) rest)) \<noteq>
           Inr (Checksum (take (unat (Length h + 4) - 4) rest))
      then Inl ChecksumMismatch
      else Inr (h, take (unat (Length h + 4) - 4) rest))"
proof -
  define n where "n = unat (Length h + 4)"
  have a: "drop (n - 4) (take n rest) = take 4 (drop (n - 4) rest)"
    using assms by (simp add: n_def drop_take)
  have b: "take (n - 4) (take n rest) = take (n - 4) rest"
    by (simp add: min_def)
  have c: "length (take 4 (drop (n - 4) rest)) = 4"
    using assms by (simp add: n_def)
  have "read_body rest h = check_trailer h (take n rest)"
    using assms by (simp add: read_body_def Let_def ReadFull_def n_def)
  also have "\<dots> = (if Uint32 (take 4 (drop (n - 4) rest)) \<noteq> Inr (Checksum (take (n - 4) rest))
      then Inl ChecksumMismatch else Inr (h, take (n - 4) rest))"
    using assms c by (simp add: check_trailer_def Let_def a b n_def Uint32_def)
  finally show ?thesis by (simp add: n_def)
qed


lemma tcp_ReadFrame_short:
  assumes "length inp < 1 + unat (inp ! 0)"
  shows "tcp_ReadFrame inp = Inl ReadError"
proof (cases inp)
  case Nil
  then show ?thesis by (simp add: tcp_ReadFrame_steps ReadFull_def)
next
  case (Cons b bs)
  with assms show ?thesis by (simp add: tcp_ReadFrame_steps ReadFull_def)
qed

lemma read_body_Inr:
  assumes "read_body rest h = Inr (g, pl)"
  shows "g = h \<and> unat (Length h + 4) \<le> maxAlloc \<and> 4 \<le> unat (Length h + 4) \<and>
         unat (Length h + 4) \<le> length rest \<and>
         pl = take (unat (Length h + 4) - 4) rest \<and>
         Uint32 (take 4 (drop (unat (Length h + 4) - 4) rest)) = Inr (Checksum pl)"
proof -
  define n where "n = unat (Length h + 4)"
  have 1: "n \<le> maxAlloc"
    using assms by (auto simp: read_body_def Let_def n_def split: if_splits)
  have 2: "n \<le> length rest"
    using assms 1 by (auto simp: read_body_def Let_def n_def ReadFull_def split: if_splits)
  have 3: "4 \<le> n"
    using assms 1 2 by (auto simp: read_body_def Let_def n_def ReadFull_def check_trailer_def split: if_splits)
  from assms read_body_ok [of h rest] 1 2 3 show ?thesis
    by (auto simp: n_def split: if_splits)
qed

lemma tcp_ReadFrame_Inr:
  assumes "tcp_ReadFrame inp = Inr (h, pl)"
  shows "1 + unat (inp ! 0) \<le> length inp \<and>
         HeaderDecode (Slice (take (unat (inp ! 0)) (drop 1 inp)) []) = Inr h \<and>
         read_body (drop (1 + unat (inp ! 0)) inp) h = Inr (h, pl)"
proof -
  have l: "1 + unat (inp ! 0) \<le> length inp"
  proof (rule ccontr)
    assume "\<not> ?thesis"
    then have "tcp_ReadFrame inp = Inl ReadError"
      by (intro tcp_ReadFrame_short) simp
    with assms show False by simp
  qed
  from assms tcp_ReadFrame_header [OF l]
  obtain g where g: "HeaderDecode (Slice (take (unat (inp ! 0)) (drop 1 inp)) []) = Inr g"
    and r: "read_body (drop (1 + unat (inp ! 0)) inp) g = Inr (h, pl)"
    by (cases "HeaderDecode (Slice (take (unat (inp ! 0)) (drop 1 inp)) [])") auto
  from read_body_Inr [OF r] have "h = g" by simp
  with l g r show ?thesis by simp
qed

lemma tcp_ReadFrame_flip:
  assumes ok: "tcp_ReadFrame inp = Inr (h, pl)"
    and i: "i < length pl" and b: "b \<noteq> pl ! i"
  shows "tcp_ReadFrame (inp[1 + unat (inp ! 0) + i := b]) = Inl ChecksumMismatch"
proof -
  define L where "L = unat (inp ! 0)"
  define n where "n = unat (Length h + 4)"
  define rest where "rest = drop (1 + L) inp"
  let ?inp = "inp[1 + L + i := b]"
  from tcp_ReadFrame_Inr [OF ok]
  have l: "1 + L \<le> length inp"
    and d: "HeaderDecode (Slice (take L (drop 1 inp)) []) = Inr h"
    and r: "read_body rest h = Inr (h, pl)"
    by (simp_all add: L_def rest_def)
  from read_body_Inr [OF r]
  have n1: "n \<le> maxAlloc" and n2: "4 \<le> n" and n3: "n \<le> length rest"
    and pl: "pl = take (n - 4) rest"
    and c: "Uint32 (take 4 (drop (n - 4) rest)) = Inr (Checksum pl)"
    by (simp_all add: n_def)
  from i pl have i': "i < n - 4" by simp
  have z: "?inp ! 0 = inp ! 0"
    by simp
  have hb: "take L (drop 1 ?inp) = take L (drop 1 inp)"
    by (simp add: drop_update_swap)
  have rest': "drop (1 + L) ?inp = rest[i := b]"
    by (simp add: rest_def drop_update_swap)
  have pl': "take (n - 4) (rest[i := b]) = pl[i := b]"
    by (simp add: pl take_update_swap)
  have tr: "take 4 (drop (n - 4) (rest[i := b])) = take 4 (drop (n - 4) rest)"
    using i' by simp
  have zz: "unat (?inp ! 0) = L"
    by (simp add: L_def)
  have "1 + unat (?inp ! 0) \<le> length ?inp"
    using l by (simp add: L_def)
  then have "tcp_ReadFrame ?inp =
      and_then (HeaderDecode (Slice (take (unat (?inp ! 0)) (drop 1 ?inp)) []))
        (\<lambda>h. read_body (drop (1 + unat (?inp ! 0)) ?inp) h)"
    by (rule tcp_ReadFrame_header)
  also have "\<dots> = and_then (HeaderDecode (Slice (take L (drop 1 inp)) []))
        (\<lambda>h. read_body (rest[i := b]) h)"
    by (simp only: zz hb rest')
  also have "\<dots> = read_body (rest[i := b]) h"
    by (simp only: d and_then_Inr)
  also have "\<dots> = Inl ChecksumMismatch"
    using read_body_ok [of h "rest[i := b]"] n1 n2 n3 c Checksum_flip [OF i b]
    by (simp add: n_def [symmetric] pl' tr)
  finally show ?thesis by (simp add: L_def)
qed

lemma HeaderDecode_on_wire:
  assumes "MessageType h = MessageTypeBroadcast \<longrightarrow> Receiver h \<noteq> uuid_Nil"
  shows "HeaderDecode (Slice (header_layout h) sp) = Inr (on_wire h)"
  using HeaderDecode_layout [OF assms] by (simp add: on_wire_def)

lemma HeaderSize_bounds: "52 \<le> HeaderSize h \<and> HeaderSize h \<le> 72"
  by (simp add: HeaderSize_eq)

lemma unat_HeaderSize: "unat (of_nat (HeaderSize h) :: byte) = HeaderSize h"
  using HeaderSize_bounds [of h] by (simp add: unat_of_nat)

lemma unat_payload_size:
  assumes "length p + 4 < 2 ^ 63"
  shows "unat ((of_nat (length p) :: 64 word) + 4) = length p + 4"
proof -
  have "(of_nat (length p) :: 64 word) + 4 = of_nat (length p + 4)"
    by simp
  moreover have "length p + 4 < 2 ^ 64"
    using assms by simp
  ultimately show ?thesis
    by (simp only: unat_of_nat) simp
qed

lemma tcp_ReadFrame_frame:
  assumes sym: "MessageType h = MessageTypeBroadcast \<longrightarrow> Receiver h \<noteq> uuid_Nil"
    and len: "Length h = of_nat (length p)"
    and small: "length p + 4 \<le> maxAlloc"
  shows "tcp_ReadFrame (frame_layout h p @ rest) = Inr (on_wire h, p)"
proof -
  let ?hl = "header_layout h"
  let ?inp = "frame_layout h p @ rest"
  have L: "unat (?inp ! 0) = length ?hl"
    by (simp add: frame_layout_def length_header_layout unat_HeaderSize)
  have l: "1 + unat (?inp ! 0) \<le> length ?inp"
    unfolding L by (simp add: frame_layout_def)
  have hb: "take (length ?hl) (drop 1 ?inp) = ?hl"
    by (simp add: frame_layout_def)
  have rs: "drop (1 + length ?hl) ?inp = p @ be32 (Checksum p) @ rest"
    by (simp add: frame_layout_def)
  have "length p + 4 < 2 ^ 63"
    using small by (simp add: maxAlloc_def)
  then have n: "unat (Length (on_wire h) + 4) = length p + 4"
    using unat_payload_size [of p] by (simp add: on_wire_def len)
  have "tcp_ReadFrame ?inp = read_body (p @ be32 (Checksum p) @ rest) (on_wire h)"
    unfolding tcp_ReadFrame_header [OF l] L hb rs
    by (simp only: HeaderDecode_on_wire [OF sym] and_then_Inr)
  also have "\<dots> = Inr (on_wire h, p)"
    using read_body_ok [of "on_wire h" "p @ be32 (Checksum p) @ rest"] small
    by (simp add: n)
  finally show ?thesis .
qed

lemma wire_format_eq: "wire_format h = header_layout h"
  by (simp add: wire_format_def header_layout_def be64_big_endian be32_big_endian)

lemma SetTimestampIfZero_eq:
  "SetTimestampIfZero now h = h\<lparr>Timestamp := (if Timestamp h = 0 then now else Timestamp h)\<rparr>"
  by (simp add: SetTimestampIfZero_def)

lemma HeaderDecode_size_check:
  "len data < 52 \<or> 72 < len data \<Longrightarrow> HeaderDecode data = Inl DecodeError"
  by (auto simp: HeaderDecode_def Let_def)

lemma HeaderDecode_HeaderEncode:
  assumes "MessageType h = MessageTypeBroadcast \<longrightarrow> Receiver h \<noteq> uuid_Nil"
  shows "and_then (HeaderEncode now (Some h)) (\<lambda>(g, bytes). HeaderDecode (Slice bytes sp)) =
     Inr (on_wire (SetTimestampIfZero now h))"
proof -
  have "MessageType (SetTimestampIfZero now h) = MessageTypeBroadcast \<longrightarrow>
      Receiver (SetTimestampIfZero now h) \<noteq> uuid_Nil"
    using assms by (simp add: SetTimestampIfZero_def)
  then show ?thesis
    by (simp add: HeaderEncode_layout HeaderDecode_on_wire)
qed

lemma HeaderDecode_broadcast_nil:
  assumes "MessageType h = MessageTypeBroadcast" "Receiver h = uuid_Nil"
  shows "HeaderDecode (Slice (header_layout h) []) = Inl Panic"
    and "16 \<le> length sp \<Longrightarrow> HeaderDecode (Slice (header_layout h) sp) = Inl DecodeError"
  using assms
  by (simp_all add: HeaderDecode_def Let_def reslice_def cap_def len_def index_def header_layout_def
      nth_append zero_header_def Uint32_def)

subsection \<open>The checksum is the CRC-32 of the catalogue\<close>

lemma Checksum_check_value:
  "Checksum [0x31, 0x32, 0x33, 0x34, 0x35, 0x36, 0x37, 0x38, 0x39] = 0xCBF43926"
proof -
  have s1: "CRC32Table (ucast (0xFFFFFFFF :: 32 word) XOR 0x31) XOR drop_bit 8 0xFFFFFFFF = 0x7C231048"
    by code_simp
  have s2: "CRC32Table (ucast (0x7C231048 :: 32 word) XOR 0x32) XOR drop_bit 8 0x7C231048 = 0xB0ACBB32"
    by code_simp
  have s3: "CRC32Table (ucast (0xB0ACBB32 :: 32 word) XOR 0x33) XOR drop_bit 8 0xB0ACBB32 = 0x77B79C2D"
    by code_simp
  have s4: "CRC32Table (ucast (0x77B79C2D :: 32 word) XOR 0x34) XOR drop_bit 8 0x77B79C2D = 0x641C1F5C"
    by code_simp
  have s5: "CRC32Table (ucast (0x641C1F5C :: 32 word) XOR 0x35) XOR drop_bit 8 0x641C1F5C = 0x340AC5E3"
    by code_simp
  have s6: "CRC32Table (ucast (0x340AC5E3 :: 32 word) XOR 0x36) XOR drop_bit 8 0x340AC5E3 = 0xF68D2C9E"
    by code_simp
  have s7: "CRC32Table (ucast (0xF68D2C9E :: 32 word) XOR 0x37) XOR drop_bit 8 0xF68D2C9E = 0xAFFC9660"
    by code_simp
  have s8: "CRC32Table (ucast (0xAFFC9660 :: 32 word) XOR 0x38) XOR drop_bit 8 0xAFFC9660 = 0x651F2550"
    by code_simp
  have s9: "CRC32Table (ucast (0x651F2550 :: 32 word) XOR 0x39) XOR drop_bit 8 0x651F2550 = 0x340BC6D9"
    by code_simp
  have n0: "NOT (0 :: 32 word) = 0xFFFFFFFF"
    by simp
  have n1: "NOT (0x340BC6D9 :: 32 word) = 0xCBF43926"
    by simp
  show ?thesis
    unfolding Checksum_def simpleUpdate_def n0
    by (simp only: simpleUpdate_loop.simps s1 s2 s3 s4 s5 s6 s7 s8 s9 n1)
qed

lemma ieee_reflected_eq: "ieee_reflected = IEEE"
  by (simp add: ieee_reflected_def ieee_exponents_def IEEE_def)

lemma crc32_bit_eq: "crc32_bit = crc_shift IEEE"
  by (rule ext) (simp add: crc32_bit_def crc_shift_alt ieee_reflected_eq)

lemma simpleUpdate_loop_register:
  "simpleUpdate_loop CRC32Table c p = crc32_register c p"
  by (induction p arbitrary: c) (simp_all add: table_step crc32_bit_eq)

lemma Checksum_crc32_ieee: "Checksum p = crc32_ieee p"
proof -
  have m: "(0xFFFFFFFF :: 32 word) = NOT 0"
    by simp
  show ?thesis
    unfolding Checksum_def simpleUpdate_def crc32_ieee_def m simpleUpdate_loop_register ..
qed

subsection \<open>Lengths and frames\<close>

lemma unat_payload_length:
  assumes "length p < 2 ^ 63"
  shows "unat (of_nat (length p) :: 64 word) = length p"
proof -
  have "length p < 2 ^ 64" using assms by simp
  then show ?thesis by (simp add: unat_of_nat)
qed

lemma frame_layout_Length_bytes:
  "take 8 (drop 41 (frame_layout h p)) = be64 (Length h)"
  by (simp add: frame_layout_def header_layout_def)

lemma header_layout_Router:
  "(header_layout h)[50 := r] = header_layout (h\<lparr>Router := r\<rparr>)"
proof -
  let ?pre = "Rep_uuid (ID h) @ Rep_uuid (Sender h) @ be64 (Timestamp h) @ be64 (Length h)"
  have l: "length ?pre = 48" by simp
  have "(?pre @ [Flags h, MessageType h, Router h, Protocol h] @ rest)[50 := r] =
      ?pre @ [Flags h, MessageType h, r, Protocol h] @ rest" for rest
    by (simp only: list_update_append l) simp
  then show ?thesis
    by (simp add: header_layout_def)
qed

lemma frame_layout_Router:
  "(frame_layout h p)[51 := r] = frame_layout (h\<lparr>Router := r\<rparr>) p"
proof -
  have "length (header_layout (h\<lparr>Router := r\<rparr>)) = length (header_layout h)"
    by (simp add: length_header_layout HeaderSize_eq IsBroadcast_def)
  moreover have "(header_layout h @ rest)[50 := r] = (header_layout h)[50 := r] @ rest" for rest
    using HeaderSize_bounds [of h] by (simp add: list_update_append length_header_layout)
  ultimately show ?thesis
    by (simp add: frame_layout_def header_layout_Router)
qed

lemma plain_frame_read:
  assumes "MessageType h \<noteq> MessageTypeBroadcast" "Protocol h \<noteq> ProtocolUDP"
    and "Receiver h = uuid_Nil" "Sequence h = 0" "Length h = of_nat (length p)" "length p + 4 \<le> maxAlloc"
  shows "tcp_ReadFrame (frame_layout h p) = Inr (h, p)"
proof -
  have "tcp_ReadFrame (frame_layout h p @ []) = Inr (on_wire h, p)"
    using assms by (intro tcp_ReadFrame_frame) simp_all
  moreover have "on_wire h = h"
    using assms by (simp add: on_wire_def)
  ultimately show ?thesis by simp
qed

lemma example_frame_read:
  "tcp_ReadFrame (frame_layout (example_header\<lparr>Length := 1, Router := r\<rparr>) [0x41]) =
     Inr (example_header\<lparr>Length := 1, Router := r\<rparr>, [0x41])"
  by (rule plain_frame_read)
    (simp_all add: example_header_def zero_header_def MessageTypeData_def MessageTypeBroadcast_def
      ProtocolUDP_def maxAlloc_def)

subsection \<open>Runs of the datagram transport\<close>

lemma udp_WriteFrame_nil: "udp_WriteFrame u now pc_ok None payload = (u, None, Inl HeaderNil)"
  by (simp add: udp_WriteFrame_def)

lemma sent_sequences_Nil [simp]: "sent_sequences [] = []"
  by (simp add: sent_sequences_def)

lemma sent_sequences_Cons:
  "sent_sequences ((h, r) # outs) =
     (case h of None \<Rightarrow> [] | Some g \<Rightarrow> (case r of Inl e \<Rightarrow> [] | Inr m \<Rightarrow> [Sequence g])) @
     sent_sequences outs"
  by (simp add: sent_sequences_def)

lemma udp_WriteFrames_step:
  "udp_WriteFrames u ((now, pc_ok, Some h, payload) # cs) =
     (snd (udp_WriteFrame u now pc_ok (Some h) payload) #
        fst (udp_WriteFrames (u\<lparr>sequence := sequence u + 1\<rparr>) cs),
      snd (udp_WriteFrames (u\<lparr>sequence := sequence u + 1\<rparr>) cs))"
  by (simp add: udp_WriteFrame_eq Let_def split_beta)

lemma udp_WriteFrames_nil_step:
  "udp_WriteFrames u ((now, pc_ok, None, payload) # cs) =
     ((None, Inl HeaderNil) # fst (udp_WriteFrames u cs), snd (udp_WriteFrames u cs))"
  by (simp add: udp_WriteFrame_nil split_beta)

lemma sent_first:
  "sent_sequences [snd (udp_WriteFrame u now pc_ok (Some h) payload)] =
     (if isl (snd (snd (udp_WriteFrame u now pc_ok (Some h) payload))) then [] else [sequence u])"
  by (simp add: udp_WriteFrame_eq Let_def sent_sequences_def SetTimestampIfZero_eq)

lemma sent_sequences_bounds:
  assumes "unat (sequence u) + length cs \<le> 2 ^ 32"
  shows "sorted_wrt (<) (sent_sequences (fst (udp_WriteFrames u cs))) \<and>
         (\<forall>x \<in> set (sent_sequences (fst (udp_WriteFrames u cs))). sequence u \<le> x)"
  using assms
proof (induction cs arbitrary: u)
  case Nil
  then show ?case by simp
next
  case (Cons c cs)
  obtain now pc_ok header payload where c: "c = (now, pc_ok, header, payload)"
    by (cases c) auto
  show ?case
  proof (cases header)
    case None
    from Cons.prems have "unat (sequence u) + length cs \<le> 2 ^ 32" by simp
    from Cons.IH [OF this] show ?thesis
      by (simp add: c None udp_WriteFrame_nil split_beta sent_sequences_Cons)
  next
    case (Some h)
    let ?u1 = "u\<lparr>sequence := sequence u + 1\<rparr>"
    let ?rest = "sent_sequences (fst (udp_WriteFrames ?u1 cs))"
    let ?o = "snd (udp_WriteFrame u now pc_ok (Some h) payload)"
    have split: "sent_sequences (fst (udp_WriteFrames u (c # cs))) = sent_sequences [?o] @ ?rest"
      by (simp add: c Some udp_WriteFrames_step sent_sequences_def del: udp_WriteFrames.simps)
    show ?thesis
    proof (cases cs)
      case Nil
      then have "?rest = []" by simp
      with split show ?thesis by (auto simp: sent_first)
    next
      case (Cons c' cs')
      with Cons.prems have lt: "unat (sequence u) + 1 < 2 ^ 32" by simp
      then have "unat (sequence u) + unat (1 :: 32 word) < 2 ^ LENGTH(32)" by simp
      then have u1: "unat (sequence u + 1) = unat (sequence u) + 1"
        by (simp only: unat_add_lem) simp
      with Cons.prems have "unat (sequence ?u1) + length cs \<le> 2 ^ 32" by simp
      from Cons.IH [OF this]
      have s: "sorted_wrt (<) ?rest" and b: "\<forall>x \<in> set ?rest. sequence u + 1 \<le> x"
        by simp_all
      have less: "sequence u < sequence u + 1"
        using u1 by (simp add: word_less_nat_alt)
      from b less have b': "\<forall>x \<in> set ?rest. sequence u < x \<and> sequence u \<le> x"
        by auto
      show ?thesis
        unfolding split using s b' by (auto simp: sent_first sorted_wrt_append)
    qed
  qed
qed

lemma all_sent_sequences:
  assumes "all_sent (fst (udp_WriteFrames u cs))"
  shows "sent_sequences (fst (udp_WriteFrames u cs)) = map (\<lambda>k. sequence u + of_nat k) [0..<length cs] \<and>
         sequence (snd (udp_WriteFrames u cs)) = sequence u + of_nat (length cs)"
  using assms
proof (induction cs arbitrary: u)
  case Nil
  then show ?case by simp
next
  case (Cons c cs)
  obtain now pc_ok header payload where c: "c = (now, pc_ok, header, payload)"
    by (cases c) auto
  show ?case
  proof (cases header)
    case None
    with Cons.prems show ?thesis
      by (simp add: c udp_WriteFrame_nil split_beta all_sent_def)
  next
    case (Some h)
    let ?u1 = "u\<lparr>sequence := sequence u + 1\<rparr>"
    let ?o = "snd (udp_WriteFrame u now pc_ok (Some h) payload)"
    from Cons.prems have ok: "\<not> isl (snd (snd (udp_WriteFrame u now pc_ok (Some h) payload)))"
      and rest: "all_sent (fst (udp_WriteFrames ?u1 cs))"
      by (simp_all add: c Some udp_WriteFrames_step all_sent_def split_beta del: udp_WriteFrames.simps)
    have split: "sent_sequences (fst (udp_WriteFrames u (c # cs))) =
        sent_sequences [?o] @ sent_sequences (fst (udp_WriteFrames ?u1 cs))"
      by (simp add: c Some udp_WriteFrames_step sent_sequences_def del: udp_WriteFrames.simps)
    have m: "sequence u # map (\<lambda>k. sequence ?u1 + of_nat k) [0..<length cs] =
        map (\<lambda>k. sequence u + of_nat k) [0..<length (c # cs)]"
      by (simp add: upt_conv_Cons map_Suc_upt [symmetric] add.assoc del: upt_Suc)
    from Cons.IH [OF rest] ok show ?thesis
      unfolding split m [symmetric]
      by (simp add: sent_first c Some udp_WriteFrames_step add.assoc del: udp_WriteFrames.simps)
  qed
qed

lemma udp_WriteFrames_final:
  "list_all (\<lambda>(now, pc_ok, header, payload). header \<noteq> None) cs \<Longrightarrow>
   snd (udp_WriteFrames u cs) = u\<lparr>sequence := sequence u + of_nat (length cs)\<rparr>"
proof (induction cs arbitrary: u)
  case Nil
  then show ?case by simp
next
  case (Cons c cs)
  then obtain now pc_ok h payload where c: "c = (now, pc_ok, Some h, payload)"
    by (cases c) auto
  from Cons.prems have "list_all (\<lambda>(now, pc_ok, header, payload). header \<noteq> None) cs"
    by simp
  from Cons.IH [OF this] show ?case
    by (simp add: c udp_WriteFrames_step add.assoc del: udp_WriteFrames.simps)
qed

lemma wrapping_conn_reachable:
  "snd (udp_WriteFrames (NewUDPConnWrapper 1024 uuid_Nil) (replicate (2 ^ 32 - 1) example_call)) =
     wrapping_conn"
proof -
  have "list_all (\<lambda>(now, pc_ok, header, payload). header \<noteq> None) (replicate (2 ^ 32 - 1) example_call)"
    by (simp add: list_all_iff example_call_def)
  from udp_WriteFrames_final [OF this] show ?thesis
    by (simp add: NewUDPConnWrapper_def wrapping_conn_def)
qed

lemma example_call_result:
  "maxMessageSize u = 1024 \<Longrightarrow>
   \<exists>g. udp_WriteFrame u 1 True (Some example_header) [] =
     (u\<lparr>sequence := sequence u + 1\<rparr>, Some g, Inr (frame_layout g [])) \<and> Sequence g = sequence u"
  by (simp add: udp_WriteFrame_eq Let_def SetTimestampIfZero_eq HeaderSize_eq)

section \<open>The claims\<close>

text \<open>
  C2. For every non-nil header, \<open>HeaderEncode\<close> returns exactly the wire format: identifier,
  sender, timestamp and length (the integers big-endian), the four control bytes, then the
  receiver block only under the broadcast predicate and the sequence block only under the
  datagram predicate. Its length is 52, plus 16 if the message type is broadcast and the
  receiver is not the zero identifier, plus 4 if the protocol is UDP.
\<close>

theorem HeaderEncode_wire_format:
  "HeaderEncode now (Some h) =
     Inr (SetTimestampIfZero now h, wire_format (SetTimestampIfZero now h)) \<and>
   length (wire_format (SetTimestampIfZero now h)) =
     52 + (if MessageType h = MessageTypeBroadcast \<and> Receiver h \<noteq> uuid_Nil then 16 else 0)
        + (if Protocol h = ProtocolUDP then 4 else 0)"
proof -
  have "length (header_layout (SetTimestampIfZero now h)) = HeaderSize (SetTimestampIfZero now h)"
    by (rule length_header_layout)
  also have "\<dots> = 52 + (if MessageType h = MessageTypeBroadcast \<and> Receiver h \<noteq> uuid_Nil then 16 else 0)
        + (if Protocol h = ProtocolUDP then 4 else 0)"
    by (simp add: HeaderSize_eq IsBroadcast_def SetTimestampIfZero_def)
  finally show ?thesis
    by (simp add: HeaderEncode_layout wire_format_eq)
qed

text \<open>
  C8. Encoding a header whose timestamp is zero sets it to the current time; a non-zero
  timestamp is left as it is. Either way the eight bytes at offset 32 of the encoding are
  that timestamp, and no other field of the header changes.
\<close>

theorem HeaderEncode_timestamp:
  "\<exists>bytes. HeaderEncode now (Some h) =
       Inr (h\<lparr>Timestamp := (if Timestamp h = 0 then now else Timestamp h)\<rparr>, bytes) \<and>
     take 8 (drop 32 bytes) = big_endian 8 (if Timestamp h = 0 then now else Timestamp h)"
proof -
  let ?g = "SetTimestampIfZero now h"
  have "take 8 (drop 32 (header_layout ?g)) = be64 (Timestamp ?g)"
    by (simp add: header_layout_def)
  then show ?thesis
    by (simp add: HeaderEncode_layout SetTimestampIfZero_eq be64_big_endian)
qed

text \<open>
  C9. The stream transport's \<open>WriteFrame\<close>, given a non-nil header, leaves the caller's
  sender and sequence number as they were: the header after the call is the header before
  it with the length set to the payload's and a zero timestamp set to the current time.
\<close>

theorem tcp_WriteFrame_keeps_Sender_Sequence:
  "\<exists>h' r. tcp_WriteFrame t now conn_ok (Some h) payload = (Some h', r) \<and>
     Sender h' = Sender h \<and> Sequence h' = Sequence h \<and>
     h' = h\<lparr>Length := of_nat (length payload),
            Timestamp := (if Timestamp h = 0 then now else Timestamp h)\<rparr>"
  by (simp add: tcp_WriteFrame_eq SetTimestampIfZero_def)

text \<open>
  C10, at the input where it fails. The flag constants are 0, 1, 2, 3, 4, so
  \<open>FlagCompressed\<close> is \<open>FlagACK OR FlagError\<close>: with only the acknowledgment flag set on
  an empty flag set, \<open>HasFlag\<close> reports the compressed flag as set as well.
\<close>

theorem flags_not_independent:
  "FlagACK \<noteq> FlagNone \<and> FlagCompressed \<noteq> FlagNone \<and> FlagACK \<noteq> FlagCompressed \<and>
   HasFlag (SetFlag FlagNone FlagACK) FlagACK \<and>
   HasFlag (SetFlag FlagNone FlagACK) FlagCompressed"
  by (simp add: FlagACK_def FlagNone_def FlagCompressed_def HasFlag_def SetFlag_def)

text \<open>
  C1, at the input where it fails. A broadcast header whose receiver is the zero identifier
  is encoded without the receiver block (52 bytes), since the encoder's predicate asks for a
  non-zero receiver; the decoder reads the block whenever the message type is broadcast.
  Decoding the encoder's output panics (the slice \<open>[52:68]\<close> of a 52-byte buffer), and
  where the buffer has spare capacity it returns a decode error: no field comes back.
  For every other header the round trip holds (\<open>HeaderDecode_HeaderEncode\<close>).
\<close>

theorem roundtrip_fails_for_broadcast_without_receiver:
  "HeaderEncode 1 (Some broadcast_nil_header) =
     Inr (broadcast_nil_header\<lparr>Timestamp := 1\<rparr>, wire_format (broadcast_nil_header\<lparr>Timestamp := 1\<rparr>)) \<and>
   length (wire_format (broadcast_nil_header\<lparr>Timestamp := 1\<rparr>)) = 52 \<and>
   HeaderDecode (Slice (wire_format (broadcast_nil_header\<lparr>Timestamp := 1\<rparr>)) []) = Inl Panic \<and>
   HeaderDecode (Slice (wire_format (broadcast_nil_header\<lparr>Timestamp := 1\<rparr>)) (replicate 20 0)) =
     Inl DecodeError"
proof -
  let ?g = "broadcast_nil_header\<lparr>Timestamp := 1\<rparr>"
  have g: "SetTimestampIfZero 1 broadcast_nil_header = ?g"
    by (simp add: SetTimestampIfZero_def broadcast_nil_header_def zero_header_def)
  have m: "MessageType ?g = MessageTypeBroadcast" and r: "Receiver ?g = uuid_Nil"
    by (simp_all add: broadcast_nil_header_def zero_header_def)
  have p: "Protocol ?g \<noteq> ProtocolUDP"
    by (simp add: broadcast_nil_header_def zero_header_def ProtocolUDP_def)
  have "HeaderEncode 1 (Some broadcast_nil_header) = Inr (?g, wire_format ?g)"
    using HeaderEncode_layout [of 1 broadcast_nil_header] by (simp only: g wire_format_eq)
  moreover have "length (wire_format ?g) = 52"
    using m r p by (simp add: wire_format_eq length_header_layout HeaderSize_eq IsBroadcast_def)
  moreover have "HeaderDecode (Slice (wire_format ?g) []) = Inl Panic"
    unfolding wire_format_eq by (rule HeaderDecode_broadcast_nil(1) [OF m r])
  moreover have "HeaderDecode (Slice (wire_format ?g) (replicate 20 0)) = Inl DecodeError"
    unfolding wire_format_eq by (rule HeaderDecode_broadcast_nil(2) [OF m r]) simp
  ultimately show ?thesis by simp
qed

text \<open>
  C3, at the input where it fails. Fifty-two bytes, inside the accepted range, whose
  message type is broadcast: the fields would consume 68 bytes, not 52, but the decoder
  never reaches its size comparison; slicing the receiver block panics. Lengths outside
  the range are rejected with a decode error (\<open>HeaderDecode_size_check\<close>).
\<close>

theorem HeaderDecode_short_broadcast_panics:
  "len (Slice short_broadcast_bytes []) = 52 \<and>
   elems (Slice short_broadcast_bytes []) ! 49 = MessageTypeBroadcast \<and>
   HeaderDecode (Slice short_broadcast_bytes []) = Inl Panic"
  by (simp add: HeaderDecode_def Let_def reslice_def cap_def len_def index_def nth_append
      zero_header_def short_broadcast_bytes_def MessageTypeBroadcast_def Uint64_def)

text \<open>
  C4, at the input where it fails. Fifty-two bytes whose protocol byte says UDP pass the
  bounds check, and the read of the four sequence bytes at \<open>[52:56]\<close> goes past the end
  of the input: a panic, not an error value. The stream transport passes a buffer of
  exactly the announced length, so a peer that sends these bytes crashes the reader.
\<close>

theorem HeaderDecode_short_datagram_panics:
  "len (Slice short_datagram_bytes []) = 52 \<and>
   HeaderDecode (Slice short_datagram_bytes []) = Inl Panic \<and>
   tcp_ReadFrame (52 # short_datagram_bytes) = Inl Panic"
proof -
  have d: "HeaderDecode (Slice short_datagram_bytes []) = Inl Panic"
    by (simp add: HeaderDecode_def Let_def reslice_def cap_def len_def index_def nth_append
      zero_header_def short_datagram_bytes_def MessageTypeBroadcast_def ProtocolUDP_def Uint64_def)
  have l: "length short_datagram_bytes = 52"
    by (simp add: short_datagram_bytes_def)
  have "tcp_ReadFrame (52 # short_datagram_bytes) = Inl Panic"
    using tcp_ReadFrame_header [of "52 # short_datagram_bytes"] by (simp add: l d)
  with d l show ?thesis by (simp add: len_def)
qed

text \<open>
  C7. After \<open>WriteFrame\<close> on either transport, whatever length the caller put in the
  header, the header's length is the byte count of the payload of that call (a Go slice
  holds fewer than \<open>2 ^ 63\<close> bytes), and it was set before the header was serialized: in
  every frame that goes out, the eight bytes of the length field (offset 40 of the header,
  41 of the frame) are that byte count.
\<close>

theorem WriteFrame_sets_Length:
  assumes "length payload < 2 ^ 63"
  shows "\<exists>h1 r1 u2 h2 r2.
     tcp_WriteFrame t now conn_ok (Some h) payload = (Some h1, r1) \<and>
     unat (Length h1) = length payload \<and>
     (\<forall>m. r1 = Inr m \<longrightarrow> take 8 (drop 41 m) = big_endian 8 (of_nat (length payload) :: 64 word)) \<and>
     udp_WriteFrame u now pc_ok (Some h) payload = (u2, Some h2, r2) \<and>
     unat (Length h2) = length payload \<and>
     (\<forall>m. r2 = Inr m \<longrightarrow> take 8 (drop 41 m) = big_endian 8 (of_nat (length payload) :: 64 word))"
  using unat_payload_length [OF assms]
  by (auto simp: tcp_WriteFrame_eq udp_WriteFrame_eq Let_def SetTimestampIfZero_eq
      frame_layout_Length_bytes be64_big_endian split: if_splits)

text \<open>
  The same at a one-byte payload, where both calls succeed.
\<close>

theorem WriteFrame_sets_Length_witness:
  "length [0x41 :: byte] < 2 ^ 63 \<and>
   (\<exists>h1 r1 u2 h2 r2.
     tcp_WriteFrame example_tcp 1 True (Some example_header) [0x41] = (Some h1, r1) \<and>
     unat (Length h1) = length [0x41 :: byte] \<and>
     (\<forall>m. r1 = Inr m \<longrightarrow> take 8 (drop 41 m) = big_endian 8 (of_nat (length [0x41 :: byte]) :: 64 word)) \<and>
     udp_WriteFrame (NewUDPConnWrapper 1024 uuid_Nil) 1 True (Some example_header) [0x41] = (u2, Some h2, r2) \<and>
     unat (Length h2) = length [0x41 :: byte] \<and>
     (\<forall>m. r2 = Inr m \<longrightarrow> take 8 (drop 41 m) = big_endian 8 (of_nat (length [0x41 :: byte]) :: 64 word))) \<and>
   isl (snd (tcp_WriteFrame example_tcp 1 True (Some example_header) [0x41])) = False \<and>
   isl (snd (snd (udp_WriteFrame (NewUDPConnWrapper 1024 uuid_Nil) 1 True (Some example_header) [0x41]))) = False"
proof -
  have h: "length [0x41 :: byte] < 2 ^ 63" by simp
  have s: "HeaderSize g \<le> 72" for g
    by (simp add: HeaderSize_eq)
  have a: "isl (snd (tcp_WriteFrame example_tcp 1 True (Some example_header) [0x41])) = False"
    by (simp add: tcp_WriteFrame_eq)
  have b: "isl (snd (snd (udp_WriteFrame (NewUDPConnWrapper 1024 uuid_Nil) 1 True (Some example_header) [0x41]))) = False"
    using s [of "SetTimestampIfZero 1 (example_header\<lparr>Sender := sender (NewUDPConnWrapper 1024 uuid_Nil), Protocol := ProtocolUDP,
       Sequence := sequence (NewUDPConnWrapper 1024 uuid_Nil), Length := of_nat (length [0x41 :: byte])\<rparr>)"]
    by (simp add: udp_WriteFrame_eq Let_def NewUDPConnWrapper_def)
  from WriteFrame_sets_Length [OF h, of example_tcp 1 True example_header "NewUDPConnWrapper 1024 uuid_Nil" True]
  show ?thesis using h a b by blast
qed

text \<open>
  C5 as stated fails where the 32-bit counter wraps: from a wrapper whose counter is
  \<open>0xFFFFFFFF\<close> (reached after \<open>2 ^ 32 - 1\<close> calls, \<open>wrapping_conn_reachable\<close>), two
  consecutive calls both succeed and send the sequence numbers \<open>0xFFFFFFFF\<close> and \<open>0\<close>.
\<close>

theorem sequence_wraps_counterexample:
  "all_sent (fst (udp_WriteFrames wrapping_conn [example_call, example_call])) \<and>
   sent_sequences (fst (udp_WriteFrames wrapping_conn [example_call, example_call])) = [0xFFFFFFFF, 0] \<and>
   \<not> sorted_wrt (<) (sent_sequences (fst (udp_WriteFrames wrapping_conn [example_call, example_call])))"
proof -
  let ?u1 = "wrapping_conn\<lparr>sequence := sequence wrapping_conn + 1\<rparr>"
  from example_call_result [of wrapping_conn]
  obtain g1 where 1: "udp_WriteFrame wrapping_conn 1 True (Some example_header) [] =
      (?u1, Some g1, Inr (frame_layout g1 []))" and s1: "Sequence g1 = 0xFFFFFFFF"
    by (auto simp: wrapping_conn_def)
  from example_call_result [of ?u1]
  obtain g2 where 2: "udp_WriteFrame ?u1 1 True (Some example_header) [] =
      (?u1\<lparr>sequence := sequence ?u1 + 1\<rparr>, Some g2, Inr (frame_layout g2 []))" and s2: "Sequence g2 = 0"
    by (auto simp: wrapping_conn_def)
  have "sent_sequences (fst (udp_WriteFrames wrapping_conn [example_call, example_call])) = [0xFFFFFFFF, 0]"
    by (simp add: example_call_def 1 2 sent_sequences_def s1 s2)
  moreover have "all_sent (fst (udp_WriteFrames wrapping_conn [example_call, example_call]))"
    by (simp add: example_call_def 1 2 all_sent_def)
  ultimately show ?thesis by simp
qed

text \<open>
  C5, amended. \<open>WriteFrame\<close> on the datagram transport overwrites the header's sender with
  the wrapper's, its protocol with UDP and its sequence number with the wrapper's counter,
  whatever the caller supplied, and then adds one to the counter (in 32 bits); it fails
  with the message-too-large error when the assembled frame exceeds the configured maximum.
  In a run of consecutive calls that all succeed, the sequence numbers sent start from the
  wrapper's initial counter and go up by one (modulo \<open>2 ^ 32\<close>) from frame to frame, and
  the counter ends that many above where it began. As long as the counter does not wrap
  (initial value plus number of calls at most \<open>2 ^ 32\<close>), the sequence numbers of the
  frames sent are strictly increasing.
\<close>

theorem udp_WriteFrame_sequence:
  "(\<exists>h' r. udp_WriteFrame u now pc_ok (Some h) payload = (u\<lparr>sequence := sequence u + 1\<rparr>, Some h', r) \<and>
      Sender h' = sender u \<and> Protocol h' = ProtocolUDP \<and> Sequence h' = sequence u \<and>
      (maxMessageSize u < int (1 + length (wire_format h') + length payload + 4) \<longrightarrow>
         r = Inl MessageTooLarge)) \<and>
   (all_sent (fst (udp_WriteFrames u cs)) \<longrightarrow>
      sent_sequences (fst (udp_WriteFrames u cs)) = map (\<lambda>k. sequence u + of_nat k) [0..<length cs] \<and>
      sequence (snd (udp_WriteFrames u cs)) = sequence u + of_nat (length cs)) \<and>
   (unat (sequence u) + length cs \<le> 2 ^ 32 \<longrightarrow>
      sorted_wrt (<) (sent_sequences (fst (udp_WriteFrames u cs))))"
proof -
  have "\<exists>h' r. udp_WriteFrame u now pc_ok (Some h) payload = (u\<lparr>sequence := sequence u + 1\<rparr>, Some h', r) \<and>
      Sender h' = sender u \<and> Protocol h' = ProtocolUDP \<and> Sequence h' = sequence u \<and>
      (maxMessageSize u < int (1 + length (wire_format h') + length payload + 4) \<longrightarrow>
         r = Inl MessageTooLarge)"
    by (simp add: udp_WriteFrame_eq Let_def SetTimestampIfZero_eq wire_format_eq length_header_layout)
  moreover have "all_sent (fst (udp_WriteFrames u cs)) \<longrightarrow>
      sent_sequences (fst (udp_WriteFrames u cs)) = map (\<lambda>k. sequence u + of_nat k) [0..<length cs] \<and>
      sequence (snd (udp_WriteFrames u cs)) = sequence u + of_nat (length cs)"
    using all_sent_sequences [of u cs] by blast
  moreover have "unat (sequence u) + length cs \<le> 2 ^ 32 \<longrightarrow>
      sorted_wrt (<) (sent_sequences (fst (udp_WriteFrames u cs)))"
    using sent_sequences_bounds [of u cs] by blast
  ultimately show ?thesis
    by (intro conjI)
qed

text \<open>
  The same on a fresh wrapper with a maximum of 100 bytes: a 100-byte payload is too
  large, and two empty payloads both go out, with the sequence numbers 0 and 1.
\<close>

theorem udp_WriteFrame_sequence_witness:
  "maxMessageSize (NewUDPConnWrapper 100 uuid_Nil) < int (1 + 56 + length (replicate 100 (0::byte)) + 4) \<and>
   snd (snd (udp_WriteFrame (NewUDPConnWrapper 100 uuid_Nil) 1 True (Some example_header) (replicate 100 0))) =
     Inl MessageTooLarge \<and>
   all_sent (fst (udp_WriteFrames (NewUDPConnWrapper 100 uuid_Nil) [example_call, example_call])) \<and>
   sent_sequences (fst (udp_WriteFrames (NewUDPConnWrapper 100 uuid_Nil) [example_call, example_call])) =
     map (\<lambda>k. sequence (NewUDPConnWrapper 100 uuid_Nil) + of_nat k) [0..<length [example_call, example_call]] \<and>
   sent_sequences (fst (udp_WriteFrames (NewUDPConnWrapper 100 uuid_Nil) [example_call, example_call])) = [0, 1] \<and>
   sequence (snd (udp_WriteFrames (NewUDPConnWrapper 100 uuid_Nil) [example_call, example_call])) = 2 \<and>
   unat (sequence (NewUDPConnWrapper 100 uuid_Nil)) + length [example_call, example_call] \<le> 2 ^ 32 \<and>
   sorted_wrt (<) (sent_sequences (fst (udp_WriteFrames (NewUDPConnWrapper 100 uuid_Nil) [example_call, example_call])))"
proof -
  let ?u = "NewUDPConnWrapper 100 uuid_Nil"
  let ?cs = "[example_call, example_call]"
  note t = udp_WriteFrame_sequence [of ?u 1 True example_header "replicate 100 0" ?cs]
  have a: "maxMessageSize ?u < int (1 + 56 + length (replicate 100 (0::byte)) + 4)"
    by (simp add: NewUDPConnWrapper_def)
  have b: "unat (sequence ?u) + length ?cs \<le> 2 ^ 32"
    by (simp add: NewUDPConnWrapper_def)
  from t obtain h' r where
    w: "udp_WriteFrame ?u 1 True (Some example_header) (replicate 100 0) = (?u\<lparr>sequence := sequence ?u + 1\<rparr>, Some h', r)"
    and m: "maxMessageSize ?u < int (1 + length (wire_format h') + length (replicate 100 (0::byte)) + 4) \<longrightarrow> r = Inl MessageTooLarge"
    by blast
  have "52 \<le> length (wire_format h')"
    using HeaderSize_bounds [of h'] by (simp add: wire_format_eq length_header_layout)
  with m have "r = Inl MessageTooLarge"
    by (simp add: NewUDPConnWrapper_def)
  with w have c: "snd (snd (udp_WriteFrame ?u 1 True (Some example_header) (replicate 100 0))) = Inl MessageTooLarge"
    by simp
  have s: "all_sent (fst (udp_WriteFrames ?u ?cs))"
    by (simp add: example_call_def udp_WriteFrame_eq Let_def all_sent_def
        NewUDPConnWrapper_def SetTimestampIfZero_eq HeaderSize_eq)
  from t s have e: "sent_sequences (fst (udp_WriteFrames ?u ?cs)) = map (\<lambda>k. sequence ?u + of_nat k) [0..<length ?cs]"
    and f: "sequence (snd (udp_WriteFrames ?u ?cs)) = sequence ?u + of_nat (length ?cs)"
    by blast+
  from e have e': "sent_sequences (fst (udp_WriteFrames ?u ?cs)) = [0, 1]"
    by (simp add: NewUDPConnWrapper_def upt_rec)
  from f have f': "sequence (snd (udp_WriteFrames ?u ?cs)) = 2"
    by (simp add: NewUDPConnWrapper_def)
  from t b have d: "sorted_wrt (<) (sent_sequences (fst (udp_WriteFrames ?u ?cs)))"
    by blast
  from a b c d e e' f' s show ?thesis by blast
qed

text \<open>
  C6. The frame the stream transport writes ends with the big-endian checksum of the
  payload, computed over the payload alone, and that checksum is the CRC-32 with the IEEE
  polynomial (check value \<open>0xCBF43926\<close>). On the read path, changing any single payload
  byte of a frame that \<open>ReadFrame\<close> accepts makes it fail with the checksum mismatch; and
  there is an accepted frame and a header byte of it whose change is accepted too, with the
  same payload.
\<close>

theorem checksum_covers_payload_only:
  "tcp_WriteFrame t now True (Some h) payload =
     (Some (SetTimestampIfZero now (h\<lparr>Length := of_nat (length payload)\<rparr>)),
      Inr (of_nat (length (wire_format (SetTimestampIfZero now (h\<lparr>Length := of_nat (length payload)\<rparr>)))) #
           wire_format (SetTimestampIfZero now (h\<lparr>Length := of_nat (length payload)\<rparr>)) @
           payload @ big_endian 4 (Checksum payload))) \<and>
   Checksum payload = crc32_ieee payload \<and>
   crc32_ieee [0x31, 0x32, 0x33, 0x34, 0x35, 0x36, 0x37, 0x38, 0x39] = 0xCBF43926 \<and>
   (tcp_ReadFrame inp = Inr (h', pl) \<and> i < length pl \<and> b \<noteq> pl ! i \<longrightarrow>
      tcp_ReadFrame (inp[1 + unat (inp ! 0) + i := b]) = Inl ChecksumMismatch) \<and>
   (\<exists>inp j b h1 h2 pl. tcp_ReadFrame inp = Inr (h1, pl) \<and> 0 < j \<and> j \<le> unat (inp ! 0) \<and>
      b \<noteq> inp ! j \<and> tcp_ReadFrame (inp[j := b]) = Inr (h2, pl))"
proof -
  let ?f = "frame_layout (example_header\<lparr>Length := 1, Router := 42\<rparr>) [0x41]"
  have a: "tcp_ReadFrame ?f = Inr (example_header\<lparr>Length := 1, Router := 42\<rparr>, [0x41])"
    by (rule example_frame_read)
  have b: "tcp_ReadFrame (?f[51 := 7]) = Inr (example_header\<lparr>Length := 1, Router := 7\<rparr>, [0x41])"
    by (simp only: frame_layout_Router) (simp add: example_frame_read)
  have c: "unat (?f ! 0) = 52" "?f ! 51 = 42"
    by (simp_all add: frame_layout_def header_layout_def example_header_def zero_header_def
        nth_append MessageTypeData_def MessageTypeBroadcast_def ProtocolUDP_def)
  have "\<exists>inp j b h1 h2 pl. tcp_ReadFrame inp = Inr (h1, pl) \<and> 0 < j \<and> j \<le> unat (inp ! 0) \<and>
      b \<noteq> inp ! j \<and> tcp_ReadFrame (inp[j := b]) = Inr (h2, pl)"
    apply (rule exI [of _ ?f])
    apply (rule exI [of _ 51])
    apply (rule exI [of _ 7])
    apply (rule exI [of _ "example_header\<lparr>Length := 1, Router := 42\<rparr>"])
    apply (rule exI [of _ "example_header\<lparr>Length := 1, Router := 7\<rparr>"])
    apply (rule exI [of _ "[0x41]"])
    using a b c apply simp
    done
  moreover have "tcp_ReadFrame inp = Inr (h', pl) \<and> i < length pl \<and> b \<noteq> pl ! i \<longrightarrow>
      tcp_ReadFrame (inp[1 + unat (inp ! 0) + i := b]) = Inl ChecksumMismatch"
    using tcp_ReadFrame_flip [of inp h' pl i b] by blast
  moreover have "tcp_WriteFrame t now True (Some h) payload =
     (Some (SetTimestampIfZero now (h\<lparr>Length := of_nat (length payload)\<rparr>)),
      Inr (of_nat (length (wire_format (SetTimestampIfZero now (h\<lparr>Length := of_nat (length payload)\<rparr>)))) #
           wire_format (SetTimestampIfZero now (h\<lparr>Length := of_nat (length payload)\<rparr>)) @
           payload @ big_endian 4 (Checksum payload)))"
    by (simp add: tcp_WriteFrame_eq frame_layout_def wire_format_eq be32_big_endian)
  moreover have "Checksum payload = crc32_ieee payload"
    by (rule Checksum_crc32_ieee)
  moreover have "crc32_ieee [0x31, 0x32, 0x33, 0x34, 0x35, 0x36, 0x37, 0x38, 0x39] = 0xCBF43926"
    using Checksum_check_value by (simp only: Checksum_crc32_ieee)
  ultimately show ?thesis
    by (intro conjI)
qed

text \<open>
  The same at a frame of 58 bytes with the one-byte payload \<open>0x41\<close> at index 53.
\<close>

theorem checksum_covers_payload_only_witness:
  "tcp_ReadFrame (frame_layout (example_header\<lparr>Length := 1\<rparr>) [0x41]) =
     Inr (example_header\<lparr>Length := 1\<rparr>, [0x41]) \<and>
   (0::nat) < length [0x41 :: byte] \<and> (0x42 :: byte) \<noteq> [0x41] ! 0 \<and>
   1 + unat (frame_layout (example_header\<lparr>Length := 1\<rparr>) [0x41] ! 0) + 0 = 53 \<and>
   frame_layout (example_header\<lparr>Length := 1\<rparr>) [0x41] ! 53 = 0x41 \<and>
   tcp_ReadFrame ((frame_layout (example_header\<lparr>Length := 1\<rparr>) [0x41])[53 := 0x42]) = Inl ChecksumMismatch"
proof -
  let ?h = "example_header\<lparr>Length := 1\<rparr>"
  let ?f = "frame_layout ?h [0x41]"
  have a: "tcp_ReadFrame ?f = Inr (?h, [0x41])"
    by (rule plain_frame_read)
      (simp_all add: example_header_def zero_header_def MessageTypeData_def MessageTypeBroadcast_def
        ProtocolUDP_def maxAlloc_def)
  have c: "1 + unat (?f ! 0) + 0 = 53" "?f ! 53 = 0x41"
    by (simp_all add: frame_layout_def header_layout_def example_header_def zero_header_def
        nth_append MessageTypeData_def MessageTypeBroadcast_def ProtocolUDP_def)
  from checksum_covers_payload_only [where inp = ?f and h' = ?h and pl = "[0x41]" and i = 0 and b = "0x42"] a
  have "tcp_ReadFrame (?f[1 + unat (?f ! 0) + 0 := 0x42]) = Inl ChecksumMismatch"
    by simp
  then have "tcp_ReadFrame (?f[53 := 0x42]) = Inl ChecksumMismatch"
    by (simp only: c)
  with a c show ?thesis by simp
qed

end
